theory Spec2Isabelle
  imports Main "HOL-Library.AList" "HOL-Library.Multiset" "HOL-Library.Char_ord" "HOL-Library.List_Lexorder"
begin

section \<open>Strings and character classes\<close>

text \<open>
  A Go string is a sequence of bytes; it is modelled as a \<open>string\<close> (a list of 8-bit
  characters). Every pattern of the indexer is made of ASCII characters only, and an
  ASCII byte is never part of a longer UTF-8 sequence, so matching byte by byte agrees
  with Go's matching rune by rune.
\<close>

definition isHex :: "char \<Rightarrow> bool" where
  \<comment> \<open>the class \<open>[0-9a-fA-F]\<close>\<close>
  "isHex c \<longleftrightarrow> c \<in> set ''0123456789abcdefABCDEF''"

definition isDigit :: "char \<Rightarrow> bool" where
  \<comment> \<open>the class \<open>\d\<close>, ASCII digits only\<close>
  "isDigit c \<longleftrightarrow> c \<in> set ''0123456789''"

definition isReSpace :: "char \<Rightarrow> bool" where
  \<comment> \<open>the class \<open>\s\<close> of Go's regexp: tab, newline, form feed, carriage return, space\<close>
  "isReSpace c \<longleftrightarrow> c \<in> {CHR 0x09, CHR 0x0A, CHR 0x0C, CHR 0x0D, CHR 0x20}"

fun stripPrefix :: "string \<Rightarrow> string \<Rightarrow> string option" where
  \<comment> \<open>the rest of the text after a literal, when the text starts with it\<close>
  "stripPrefix [] s = Some s"
| "stripPrefix (p # ps) [] = None"
| "stripPrefix (p # ps) (c # cs) = (if p = c then stripPrefix ps cs else None)"

section \<open>The stack-line normalizer\<close>

text \<open>
  \<open>offsetRe = \+0x[0-9a-fA-F]+\s*$\<close>. Without the multi-line flag \<open>$\<close> is the end
  of the text, so a match runs to the end of the line. \<open>offsetReMatch s\<close> says that the
  pattern matches at the first character of \<open>s\<close>.
\<close>

definition offsetReMatch :: "string \<Rightarrow> bool" where
  "offsetReMatch s =
     (case stripPrefix ''+0x'' s of
        None \<Rightarrow> False
      | Some r \<Rightarrow> takeWhile isHex r \<noteq> [] \<and> list_all isReSpace (dropWhile isHex r))"

fun offsetReplace :: "string \<Rightarrow> string" where
  \<comment> \<open>\<open>offsetRe.ReplaceAllString(line, "")\<close>: the leftmost match is cut off\<close>
  "offsetReplace [] = []"
| "offsetReplace (c # cs) = (if offsetReMatch (c # cs) then [] else c # offsetReplace cs)"

text \<open>
  \<open>createdByRe = (created by .+) in goroutine \d+\<close>. The \<open>.+\<close> is greedy and does not
  cross a newline: of all the places in the first line of the rest where
  \<open> in goroutine \<close> and a digit follow, the last one is taken, and then all digits.
\<close>

definition inGoroutineAt :: "string \<Rightarrow> bool" where
  "inGoroutineAt s =
     (case stripPrefix '' in goroutine '' s of
        Some (d # _) \<Rightarrow> isDigit d
      | _ \<Rightarrow> False)"

fun lastInGoroutine :: "string \<Rightarrow> nat option" where
  \<comment> \<open>the largest \<open>k\<close> with \<open>inGoroutineAt (drop k s)\<close>\<close>
  "lastInGoroutine [] = None"
| "lastInGoroutine (c # cs) =
     (case lastInGoroutine cs of
        Some k \<Rightarrow> Some (Suc k)
      | None \<Rightarrow> if inGoroutineAt (c # cs) then Some 0 else None)"

definition createdByReMatch :: "string \<Rightarrow> (nat \<times> nat) option" where
  \<comment> \<open>a match at the first character of \<open>s\<close>: the lengths of group 1 and of the match\<close>
  "createdByReMatch s =
     (case stripPrefix ''created by '' s of
        None \<Rightarrow> None
      | Some r \<Rightarrow>
          (case takeWhile (\<lambda>c. c \<noteq> CHR 0x0A) r of
             [] \<Rightarrow> None
           | c # l \<Rightarrow>
               (case lastInGoroutine l of
                  None \<Rightarrow> None
                | Some k \<Rightarrow>
                    let g = 11 + Suc k
                    in Some (g, g + 14 + length (takeWhile isDigit (drop (g + 14) s))))))"

lemma createdByReMatch_pos: "createdByReMatch s = Some (g, n) \<Longrightarrow> 0 < n"
  by (auto simp: createdByReMatch_def Let_def split: option.splits list.splits)

function createdByReplace :: "string \<Rightarrow> string" where
  \<comment> \<open>\<open>createdByRe.ReplaceAllString(line, "$1")\<close>\<close>
  "createdByReplace s =
     (if s = [] then []
      else case createdByReMatch s of
             Some (g, n) \<Rightarrow> take g s @ createdByReplace (drop n s)
           | None \<Rightarrow> hd s # createdByReplace (tl s))"
  by pat_completeness auto
termination
  by (relation "measure length") (auto dest: createdByReMatch_pos)

text \<open>\<open>hexPtrRe = 0x[0-9a-fA-F]+\??\<close>: the digits and the question mark are greedy.\<close>

definition hexPtrReMatch :: "string \<Rightarrow> nat option" where
  \<comment> \<open>a match at the first character of \<open>s\<close>: its length\<close>
  "hexPtrReMatch s =
     (case stripPrefix ''0x'' s of
        None \<Rightarrow> None
      | Some r \<Rightarrow>
          (case takeWhile isHex r of
             [] \<Rightarrow> None
           | h # hs \<Rightarrow>
               (case dropWhile isHex r of
                  q # _ \<Rightarrow> if q = CHR ''?'' then Some (4 + length hs) else Some (3 + length hs)
                | [] \<Rightarrow> Some (3 + length hs))))"

lemma hexPtrReMatch_pos: "hexPtrReMatch s = Some n \<Longrightarrow> 0 < n"
  by (auto simp: hexPtrReMatch_def split: option.splits list.splits if_splits)

function hexPtrReplace :: "string \<Rightarrow> string" where
  \<comment> \<open>\<open>hexPtrRe.ReplaceAllString(line, "...")\<close>\<close>
  "hexPtrReplace s =
     (if s = [] then []
      else case hexPtrReMatch s of
             Some n \<Rightarrow> ''...'' @ hexPtrReplace (drop n s)
           | None \<Rightarrow> hd s # hexPtrReplace (tl s))"
  by pat_completeness auto
termination
  by (relation "measure length") (auto dest: hexPtrReMatch_pos)

definition cleanStackLine :: "string \<Rightarrow> string" where
  "cleanStackLine line = hexPtrReplace (createdByReplace (offsetReplace line))"

text \<open>
  Two predicates on lines, used to state what the normalizer guarantees:
  \<open>hexPtrFree s\<close> says that \<open>hexPtrRe\<close> matches nowhere in \<open>s\<close>, and
  \<open>createdByFree s\<close> that \<open>createdByRe\<close> matches nowhere in \<open>s\<close>.
\<close>

fun hexPtrFree :: "string \<Rightarrow> bool" where
  "hexPtrFree [] = True"
| "hexPtrFree (c # cs) = (hexPtrReMatch (c # cs) = None \<and> hexPtrFree cs)"

fun createdByFree :: "string \<Rightarrow> bool" where
  "createdByFree [] = True"
| "createdByFree (c # cs) = (createdByReMatch (c # cs) = None \<and> createdByFree cs)"






section \<open>String functions of the Go library\<close>

fun splitLines :: "string \<Rightarrow> string list" where
  \<comment> \<open>\<open>strings.Split(s, "\n")\<close>\<close>
  "splitLines [] = [[]]"
| "splitLines (c # cs) =
     (if c = CHR 0x0A then [] # splitLines cs
      else (case splitLines cs of l # ls \<Rightarrow> (c # l) # ls | [] \<Rightarrow> [[c]]))"

fun joinLines :: "string list \<Rightarrow> string" where
  \<comment> \<open>\<open>strings.Join(lines, "\n")\<close>\<close>
  "joinLines [] = []"
| "joinLines [l] = l"
| "joinLines (l # ls) = l @ CHR 0x0A # joinLines ls"

text \<open>
  \<open>strings.TrimSpace\<close> removes Unicode white space at both ends. Seen as bytes, a white
  space rune is one of the six ASCII characters or one of the UTF-8 sequences of U+0085,
  U+00A0, U+1680, U+2000 to U+200A, U+2028, U+2029, U+202F, U+205F and U+3000.
  \<open>spaceAtStart s\<close> is the number of bytes of the white space rune that \<open>s\<close> starts
  with, and \<open>spaceAtEnd r\<close> the same for the rune that the text ends with, the text given
  reversed; both are 0 when there is none.
\<close>

definition asciiSpace :: "char \<Rightarrow> bool" where
  "asciiSpace c \<longleftrightarrow> c \<in> {CHR 0x09, CHR 0x0A, CHR 0x0B, CHR 0x0C, CHR 0x0D, CHR 0x20}"

definition lastOfE280 :: "char \<Rightarrow> bool" where
  \<comment> \<open>third byte of U+2000 to U+200A, U+2028, U+2029, U+202F\<close>
  "lastOfE280 c \<longleftrightarrow>
     (0x80 \<le> (of_char c :: nat) \<and> (of_char c :: nat) \<le> 0x8A) \<or> c \<in> {CHR 0xA8, CHR 0xA9, CHR 0xAF}"

fun spaceAtStart :: "string \<Rightarrow> nat" where
  "spaceAtStart [] = 0"
| "spaceAtStart [c] = (if asciiSpace c then 1 else 0)"
| "spaceAtStart [c, d] =
     (if asciiSpace c then 1
      else if c = CHR 0xC2 \<and> (d = CHR 0x85 \<or> d = CHR 0xA0) then 2 else 0)"
| "spaceAtStart (c # d # e # _) =
     (if asciiSpace c then 1
      else if c = CHR 0xC2 \<and> (d = CHR 0x85 \<or> d = CHR 0xA0) then 2
      else if (c = CHR 0xE1 \<and> d = CHR 0x9A \<and> e = CHR 0x80)
           \<or> (c = CHR 0xE2 \<and> d = CHR 0x80 \<and> lastOfE280 e)
           \<or> (c = CHR 0xE2 \<and> d = CHR 0x81 \<and> e = CHR 0x9F)
           \<or> (c = CHR 0xE3 \<and> d = CHR 0x80 \<and> e = CHR 0x80) then 3
      else 0)"

fun spaceAtEnd :: "string \<Rightarrow> nat" where
  "spaceAtEnd [] = 0"
| "spaceAtEnd [e] = (if asciiSpace e then 1 else 0)"
| "spaceAtEnd [e, d] =
     (if asciiSpace e then 1
      else if d = CHR 0xC2 \<and> (e = CHR 0x85 \<or> e = CHR 0xA0) then 2 else 0)"
| "spaceAtEnd (e # d # c # _) =
     (if asciiSpace e then 1
      else if d = CHR 0xC2 \<and> (e = CHR 0x85 \<or> e = CHR 0xA0) then 2
      else if (c = CHR 0xE1 \<and> d = CHR 0x9A \<and> e = CHR 0x80)
           \<or> (c = CHR 0xE2 \<and> d = CHR 0x80 \<and> lastOfE280 e)
           \<or> (c = CHR 0xE2 \<and> d = CHR 0x81 \<and> e = CHR 0x9F)
           \<or> (c = CHR 0xE3 \<and> d = CHR 0x80 \<and> e = CHR 0x80) then 3
      else 0)"

lemma spaceAtStart_le: "spaceAtStart s \<le> length s"
  by (induction s rule: spaceAtStart.induct) auto

lemma spaceAtEnd_le: "spaceAtEnd s \<le> length s"
  by (induction s rule: spaceAtEnd.induct) auto

function trimLeft :: "string \<Rightarrow> string" where
  "trimLeft s = (if spaceAtStart s = 0 then s else trimLeft (drop (spaceAtStart s) s))"
  by pat_completeness auto
termination
proof (relation "measure length")
  fix s :: string assume "spaceAtStart s \<noteq> 0"
  then have "s \<noteq> []" by auto
  with \<open>spaceAtStart s \<noteq> 0\<close> show "(drop (spaceAtStart s) s, s) \<in> measure length" by simp
qed simp

function trimRightRev :: "string \<Rightarrow> string" where
  "trimRightRev r = (if spaceAtEnd r = 0 then r else trimRightRev (drop (spaceAtEnd r) r))"
  by pat_completeness auto
termination
proof (relation "measure length")
  fix r :: string assume "spaceAtEnd r \<noteq> 0"
  then have "r \<noteq> []" by auto
  with \<open>spaceAtEnd r \<noteq> 0\<close> show "(drop (spaceAtEnd r) r, r) \<in> measure length" by simp
qed simp

definition TrimSpace :: "string \<Rightarrow> string" where
  "TrimSpace s = rev (trimRightRev (rev (trimLeft s)))"

definition HasPrefix :: "string \<Rightarrow> string \<Rightarrow> bool" where
  "HasPrefix s p \<longleftrightarrow> stripPrefix p s \<noteq> None"

fun Contains :: "string \<Rightarrow> string \<Rightarrow> bool" where
  "Contains [] sub = (sub = [])"
| "Contains (c # cs) sub = (stripPrefix sub (c # cs) \<noteq> None \<or> Contains cs sub)"

definition Index :: "string \<Rightarrow> char \<Rightarrow> int" where
  \<comment> \<open>\<open>strings.Index\<close> for a one-character pattern: -1 when it does not occur\<close>
  "Index s c = (if c \<in> set s then int (length (takeWhile (\<lambda>x. x \<noteq> c) s)) else -1)"

definition LastIndex :: "string \<Rightarrow> char \<Rightarrow> int" where
  "LastIndex s c =
     (if c \<in> set s then int (length s) - 1 - int (length (takeWhile (\<lambda>x. x \<noteq> c) (rev s)))
      else -1)"

section \<open>Function names\<close>

definition cleanFuncName :: "string \<Rightarrow> string" where
  "cleanFuncName fn =
     (let lastDot = LastIndex fn CHR ''.'' in
      if lastDot > 0 then
        (let afterDot = drop (nat lastDot) fn; parenIdx = Index afterDot CHR ''('' in
         if parenIdx > 0 then take (nat (lastDot + parenIdx)) fn else fn)
      else fn)"

fun extractFuncsLoop :: "string list \<Rightarrow> string list" where
  \<comment> \<open>the loop of \<open>extractFuncsFromStack\<close> over the lines of the stack\<close>
  "extractFuncsLoop [] = []"
| "extractFuncsLoop (l # ls) =
     (let line = TrimSpace l in
      if line = [] \<or> Contains line ''.go:'' then extractFuncsLoop ls
      else if HasPrefix line ''created by'' then extractFuncsLoop ls
      else
        (let idx = Index line CHR ''('';
             fn = (if idx > 0 \<and> line ! (nat idx - 1) \<noteq> CHR ''.'' \<and> line ! (nat idx - 1) \<noteq> CHR ''*''
                   then take (nat idx) line else line);
             fn' = cleanFuncName fn
         in if fn' \<noteq> [] then fn' # extractFuncsLoop ls else extractFuncsLoop ls))"

definition extractFuncsFromStack :: "string \<Rightarrow> string list" where
  "extractFuncsFromStack stack = extractFuncsLoop (splitLines stack)"

fun firstTwoLoop :: "string list \<Rightarrow> string list" where
  \<comment> \<open>the loop of \<open>extractFirstTwoFuncs\<close>: the symbols \<open>allFuncs\<close>, in the order of the text\<close>
  "firstTwoLoop [] = []"
| "firstTwoLoop (l # ls) =
     (let line = TrimSpace l in
      if line = [] \<or> Contains line ''.go:'' then firstTwoLoop ls
      else if HasPrefix line ''created by'' then firstTwoLoop ls
      else
        (let lastSlash = LastIndex line CHR ''/'';
             fn = (if lastSlash \<ge> 0 then drop (nat (lastSlash + 1)) line else line);
             lastParen = LastIndex fn CHR ''('';
             fn' = (if lastParen > 0 \<and> fn ! (nat lastParen - 1) \<noteq> CHR ''.''
                       \<and> fn ! (nat lastParen - 1) \<noteq> CHR ''*''
                    then take (nat lastParen) fn else fn)
         in fn' # firstTwoLoop ls))"

definition joinLastTwo :: "string list \<Rightarrow> string" where
  \<comment> \<open>the end of \<open>extractFirstTwoFuncs\<close>: the last two symbols, the entry point last\<close>
  "joinLastTwo allFuncs =
     (if length allFuncs = 0 then []
      else if length allFuncs = 1 then allFuncs ! 0
      else allFuncs ! (length allFuncs - 2) @ '' -> '' @ allFuncs ! (length allFuncs - 1))"

definition extractFirstTwoFuncs :: "string \<Rightarrow> string" where
  "extractFirstTwoFuncs stack = joinLastTwo (firstTwoLoop (splitLines stack))"

text \<open>
  \<open>funcNameRe = ^([a-zA-Z0-9_./\-@]+(?:\.\(\*?[a-zA-Z0-9_]+\))?(?:\.[a-zA-Z0-9_]+)+)\<close>.
  Write \<open>A\<close> for the first class and \<open>B\<close> for the class of identifiers, a subset of
  \<open>A\<close>. The search prefers the longest \<open>A+\<close>. A receiver \<open>.(*T)\<close> can only follow the
  whole run of \<open>A\<close> characters but its last dot, since \<open>(\<close> is not in \<open>A\<close>; otherwise
  \<open>A+\<close> ends at the last dot of the run that an identifier follows, and the match ends
  with that identifier.
\<close>

definition isIdent :: "char \<Rightarrow> bool" where
  "isIdent c \<longleftrightarrow> c \<in> set ''abcdefghijklmnopqrstuvwxyzABCDEFGHIJKLMNOPQRSTUVWXYZ0123456789_''"

definition isPathChar :: "char \<Rightarrow> bool" where
  "isPathChar c \<longleftrightarrow> isIdent c \<or> c \<in> set ''./-@''"

function dotIdents :: "string \<Rightarrow> nat" where
  \<comment> \<open>the length of the greedy \<open>(?:\.[a-zA-Z0-9_]+)*\<close> at the start of the text\<close>
  "dotIdents s =
     (case s of
        [] \<Rightarrow> 0
      | c # r \<Rightarrow>
          if c = CHR ''.'' \<and> takeWhile isIdent r \<noteq> []
          then 1 + length (takeWhile isIdent r) + dotIdents (dropWhile isIdent r)
          else 0)"
  by pat_completeness auto
termination
  by (relation "measure length") (auto simp: less_Suc_eq_le length_dropWhile_le)

definition receiverMatch :: "string \<Rightarrow> nat option" where
  \<comment> \<open>\<open>\(\*?[a-zA-Z0-9_]+\)(?:\.[a-zA-Z0-9_]+)+\<close> at the start of the text: its length\<close>
  "receiverMatch s =
     (case s of
        [] \<Rightarrow> None
      | p # r1 \<Rightarrow>
          if p \<noteq> CHR ''('' then None
          else
            (let star = (case r1 of c # _ \<Rightarrow> if c = CHR ''*'' then 1 else 0 | [] \<Rightarrow> 0);
                 r2 = drop star r1;
                 b = takeWhile isIdent r2
             in if b = [] then None
                else (case dropWhile isIdent r2 of
                        [] \<Rightarrow> None
                      | q # r3 \<Rightarrow>
                          if q = CHR '')'' \<and> dotIdents r3 \<noteq> 0
                          then Some (1 + star + length b + 1 + dotIdents r3)
                          else None)))"

fun lastDotIdent :: "string \<Rightarrow> nat option" where
  \<comment> \<open>the largest \<open>k\<close> such that a dot is at \<open>k\<close> and an identifier character at \<open>k + 1\<close>\<close>
  "lastDotIdent [] = None"
| "lastDotIdent (c # cs) =
     (case lastDotIdent cs of
        Some k \<Rightarrow> Some (Suc k)
      | None \<Rightarrow>
          (case cs of
             d # _ \<Rightarrow> if c = CHR ''.'' \<and> isIdent d then Some 0 else None
           | [] \<Rightarrow> None))"

definition funcNameReFind :: "string \<Rightarrow> string" where
  \<comment> \<open>\<open>funcNameRe.FindString(line)\<close>, the empty string when there is no match\<close>
  "funcNameReFind s =
     (let run = takeWhile isPathChar s; n = length run in
      case (if 2 \<le> n \<and> last run = CHR ''.'' then receiverMatch (drop n s) else None) of
        Some m \<Rightarrow> take (n + m) s
      | None \<Rightarrow>
          (case run of
             [] \<Rightarrow> []
           | _ # t \<Rightarrow>
               (case lastDotIdent t of
                  None \<Rightarrow> []
                | Some k \<Rightarrow> take (k + 2 + length (takeWhile isIdent (drop (k + 2) s))) s)))"

section \<open>Data structures\<close>

text \<open>
  The integers of the indexer are Go's \<open>int64\<close>. They are modelled by \<open>int\<close>: the only
  arithmetic on them is the reading of a decimal numeral, whose overflow is written out
  in \<open>sscanInt64\<close>. A \<open>time.Time\<close> is modelled by the nanoseconds since the Unix epoch.
\<close>

record StackEntry =
  Timestamp :: int
  State :: string
  Stack :: string
  CreatedBy :: int

record GoroutineTimeSeries =
  Entries :: "StackEntry list"

record FuncOccurrence =
  Host :: string
  GoroutineID :: int
  FirstSeen :: int
  LastSeen :: int

record FuncIndex =
  Occurrences :: "FuncOccurrence list"

record ChildInfo =
  ID :: int
  Funcs :: string
  ChildFirstSeen :: int
  ChildLastSeen :: int

record parsedGoroutine =
  state :: string
  stack :: string
  funcs :: "string list"
  createdBy :: int

record parseResult =
  timestamp :: int
  goros :: "(int \<times> parsedGoroutine) list"

text \<open>
  A Go map is modelled by an association list with distinct keys, kept by
  \<open>AList.update\<close>. Go leaves the order in which \<open>range\<close> visits a map unspecified.
  The order is a parameter of the model: \<open>mapRange seed m\<close> lists the entries of \<open>m\<close>,
  picking the next entry by the next number of \<open>seed\<close>; every order is \<open>mapRange seed m\<close>
  for some \<open>seed\<close>.
\<close>

fun mapRange :: "nat list \<Rightarrow> 'a list \<Rightarrow> 'a list" where
  "mapRange [] xs = xs"
| "mapRange (n # ns) [] = []"
| "mapRange (n # ns) (x # xs) =
     (let i = n mod Suc (length xs)
      in ((x # xs) ! i) # mapRange ns (take i (x # xs) @ drop (Suc i) (x # xs)))"

section \<open>The dump parser\<close>

definition sscanInt64 :: "string \<Rightarrow> int \<Rightarrow> int" where
  \<comment> \<open>\<open>fmt.Sscanf(digits, "%d", &v)\<close> on a string of digits: a numeral that does not fit
      in 64 bits is an error, which the callers ignore, and leaves \<open>v\<close> as it was\<close>
  "sscanInt64 ds v =
     (let n = foldl (\<lambda>a c. 10 * a + (int (of_char c) - 48)) 0 ds
      in if n \<le> 9223372036854775807 then n else v)"

text \<open>
  \<open>goroHeaderRe = (?m)^goroutine (\d+) \[([^\],]+)\<close>. \<open>goroHeaderReMatch s\<close> is the
  match at the first character of \<open>s\<close>, taken to be at the start of a line: the two
  groups and the length of the match. The negated class also matches a newline.
\<close>

definition goroHeaderReMatch :: "string \<Rightarrow> (string \<times> string \<times> nat) option" where
  "goroHeaderReMatch s =
     (case stripPrefix ''goroutine '' s of
        None \<Rightarrow> None
      | Some r \<Rightarrow>
          (case takeWhile isDigit r of
             [] \<Rightarrow> None
           | d # ds \<Rightarrow>
               (case stripPrefix '' ['' (dropWhile isDigit r) of
                  None \<Rightarrow> None
                | Some r2 \<Rightarrow>
                    (case takeWhile (\<lambda>c. c \<noteq> CHR '']'' \<and> c \<noteq> CHR '','') r2 of
                       [] \<Rightarrow> None
                     | c # cs \<Rightarrow> Some (d # ds, c # cs, 10 + length (d # ds) + 2 + length (c # cs))))))"

lemma goroHeaderReMatch_pos: "goroHeaderReMatch s = Some (ds, st, n) \<Longrightarrow> 0 < n"
  by (auto simp: goroHeaderReMatch_def split: option.splits list.splits)

function findHeaders :: "bool \<Rightarrow> nat \<Rightarrow> string \<Rightarrow> nat list" where
  \<comment> \<open>\<open>goroHeaderRe.FindAllStringIndex(data, -1)\<close>, the starts of the matches:
      \<open>bol\<close> says that the text is at the start of a line, \<open>pos\<close> is its offset in \<open>data\<close>\<close>
  "findHeaders bol pos s =
     (if s = [] then []
      else case (if bol then goroHeaderReMatch s else None) of
             Some (ds, st, n) \<Rightarrow>
               pos # findHeaders (last (take n s) = CHR 0x0A) (pos + n) (drop n s)
           | None \<Rightarrow> findHeaders (hd s = CHR 0x0A) (Suc pos) (tl s))"
  by pat_completeness auto
termination
  by (relation "measure (\<lambda>(bol, pos, s). length s)")
     (auto split: if_splits dest: goroHeaderReMatch_pos)

fun blocksOf :: "nat list \<Rightarrow> string \<Rightarrow> string list" where
  \<comment> \<open>\<open>data[start:end]\<close> for each header, \<open>end\<close> the next header or the end of the data\<close>
  "blocksOf [] data = []"
| "blocksOf [start] data = [drop start data]"
| "blocksOf (start # next # rest) data =
     take (next - start) (drop start data) # blocksOf (next # rest) data"

text \<open>
  \<open>createdByGoroIDRe = in goroutine (\d+)\s*$\<close>: \<open>goroIDReFind line\<close> is group 1 of the
  leftmost match.
\<close>

definition goroIDReMatch :: "string \<Rightarrow> string option" where
  "goroIDReMatch s =
     (case stripPrefix ''in goroutine '' s of
        None \<Rightarrow> None
      | Some r \<Rightarrow>
          if takeWhile isDigit r \<noteq> [] \<and> list_all isReSpace (dropWhile isDigit r)
          then Some (takeWhile isDigit r) else None)"

fun goroIDReFind :: "string \<Rightarrow> string option" where
  "goroIDReFind [] = None"
| "goroIDReFind (c # cs) =
     (case goroIDReMatch (c # cs) of
        Some ds \<Rightarrow> Some ds
      | None \<Rightarrow> goroIDReFind cs)"

text \<open>
  The loop of \<open>parseGoroutineBlock\<close> over the lines after the header, with its three
  variables: the normalized lines \<open>stackLines\<close>, the set of function names
  \<open>funcsMap\<close> (a Go map, here the list of its keys), and the parent id \<open>createdBy\<close>,
  written \<open>parent\<close> here.
\<close>

fun blockLoop :: "string list \<Rightarrow> string list \<times> string list \<times> int \<Rightarrow> string list \<times> string list \<times> int" where
  "blockLoop [] acc = acc"
| "blockLoop (l # ls) (stackLines, funcsMap, parent) =
     (let line = TrimSpace l in
      if line = [] then blockLoop ls (stackLines, funcsMap, parent)
      else
        (let parent' =
               (if parent = 0 then
                  (case goroIDReFind line of
                     Some ds \<Rightarrow> sscanInt64 ds parent
                   | None \<Rightarrow> parent)
                else parent);
             normalized = hexPtrReplace (createdByReplace (offsetReplace line));
             funcsMap' =
               (if \<not> HasPrefix line ''/'' \<and> \<not> HasPrefix line (CHR 0x09 # ''/'')
                   \<and> \<not> Contains line ''.go:''
                then
                  (let fnMatch = funcNameReFind line in
                   if fnMatch \<noteq> [] \<and> cleanFuncName fnMatch \<noteq> []
                   then List.insert (cleanFuncName fnMatch) funcsMap
                   else funcsMap)
                else funcsMap)
         in blockLoop ls (stackLines @ [normalized], funcsMap', parent')))"

definition parseGoroutineBlock :: "nat list \<Rightarrow> string \<Rightarrow> parsedGoroutine option" where
  "parseGoroutineBlock seed block =
     (case splitLines block of
        [] \<Rightarrow> None
      | header # rest \<Rightarrow>
          (case goroHeaderReMatch header of
             None \<Rightarrow> None
           | Some (ds, st, n) \<Rightarrow>
               (case blockLoop rest ([], [], 0) of
                  (stackLines, funcsMap, parent) \<Rightarrow>
                    Some \<lparr>state = st, stack = joinLines stackLines,
                          funcs = mapRange seed funcsMap, createdBy = parent\<rparr>)))"

fun parseBlocks :: "nat list \<Rightarrow> string list \<Rightarrow> (int \<times> parsedGoroutine) list \<Rightarrow> (int \<times> parsedGoroutine) list" where
  \<comment> \<open>the loop of \<open>parseGoroutines\<close> over the blocks, \<open>result\<close> being its map\<close>
  "parseBlocks seed [] result = result"
| "parseBlocks seed (block # blocks) result =
     (case parseGoroutineBlock seed block of
        None \<Rightarrow> parseBlocks seed blocks result
      | Some g \<Rightarrow>
          (case goroHeaderReMatch block of
             None \<Rightarrow> parseBlocks seed blocks result
           | Some (ds, st, n) \<Rightarrow>
               parseBlocks seed blocks (AList.update (sscanInt64 ds 0) g result)))"

definition parseGoroutines :: "nat list \<Rightarrow> string \<Rightarrow> (int \<times> parsedGoroutine) list" where
  "parseGoroutines seed data = parseBlocks seed (blocksOf (findHeaders True 0 data) data) []"

text \<open>
  A snapshot file, as \<open>parseSnapshotFile\<close> sees it: the time that \<open>time.Parse\<close> reads
  from its name, and its decompressed contents; \<open>None\<close> where the library call fails.
\<close>

record snapshotFile =
  fileTime :: "int option"
  fileData :: "string option"

definition parseSnapshotFile :: "nat list \<Rightarrow> snapshotFile \<Rightarrow> parseResult option" where
  \<comment> \<open>\<open>None\<close> for the \<open>nil\<close> map that makes \<open>processHost\<close> drop the file\<close>
  "parseSnapshotFile seed f =
     (case fileTime f of
        None \<Rightarrow> None
      | Some ts \<Rightarrow>
          (case fileData f of
             None \<Rightarrow> None
           | Some data \<Rightarrow> Some \<lparr>timestamp = ts, goros = parseGoroutines seed data\<rparr>))"

section \<open>The store\<close>

text \<open>
  A value of the store is the JSON encoding of one of five shapes, compressed for all
  but the metadata. Encoding and decoding are taken to be inverse to each other, so a
  stored value is modelled by the value that was encoded.
\<close>

datatype dbValue =
    SeriesValue GoroutineTimeSeries
  | ChildrenValue "ChildInfo list"
  | StatsValue "int list" "int list"
  | FuncIndexValue FuncIndex
  | StringsValue "string list"

text \<open>
  The store is modelled by the sequence of the writes committed to it, the latest last;
  \<open>dbGet\<close> returns the latest value written under the key. Reads and writes of the
  store are taken to succeed: the branches of the source that only log a failed write
  are not modelled.
\<close>

type_synonym store = "(string \<times> dbValue) list"

definition dbSet :: "store \<Rightarrow> string \<Rightarrow> dbValue \<Rightarrow> store" where
  "dbSet db key v = db @ [(key, v)]"

definition dbGet :: "store \<Rightarrow> string \<Rightarrow> dbValue option" where
  "dbGet db key = map_of (rev db) key"

definition batchCommit :: "store \<Rightarrow> (string \<times> dbValue) list \<Rightarrow> store" where
  \<comment> \<open>\<open>batch.Commit\<close>: the writes of the batch, in their order\<close>
  "batchCommit db batch = db @ batch"

function digitsOf :: "nat \<Rightarrow> string" where
  "digitsOf n =
     (if n < 10 then [char_of (48 + n)]
      else digitsOf (n div 10) @ [char_of (48 + n mod 10)])"
  by pat_completeness auto
termination
  by (relation "measure id") auto

definition formatInt :: "int \<Rightarrow> string" where
  \<comment> \<open>the verb \<open>%d\<close> of \<open>fmt.Sprintf\<close>\<close>
  "formatInt i = (if i < 0 then CHR ''-'' # digitsOf (nat (- i)) else digitsOf (nat i))"

definition seriesKey :: "string \<Rightarrow> int \<Rightarrow> string" where
  "seriesKey host goroID = ''g:'' @ host @ '':'' @ formatInt goroID"

definition childrenKey :: "string \<Rightarrow> int \<Rightarrow> string" where
  "childrenKey host parentID = ''c:'' @ host @ '':'' @ formatInt parentID"

definition statsKey :: "string \<Rightarrow> string" where
  "statsKey host = ''s:'' @ host"

definition funcKey :: "string \<Rightarrow> string" where
  "funcKey funcName = ''f:'' @ funcName"

section \<open>The per-host aggregator\<close>

definition unixSeconds :: "int \<Rightarrow> int" where
  \<comment> \<open>\<open>Time.Unix()\<close>\<close>
  "unixSeconds t = t div 1000000000"

definition appendEntry :: "int \<Rightarrow> StackEntry \<Rightarrow> (int \<times> GoroutineTimeSeries) list \<Rightarrow> (int \<times> GoroutineTimeSeries) list" where
  \<comment> \<open>\<open>goroSeries[goroID].Entries = append(goroSeries[goroID].Entries, e)\<close>, on a series
      that is created empty when the id is new\<close>
  "appendEntry goroID e goroSeries =
     AList.update goroID
       \<lparr>Entries = (case map_of goroSeries goroID of None \<Rightarrow> [] | Some s \<Rightarrow> Entries s) @ [e]\<rparr>
       goroSeries"

fun addGoros :: "int \<Rightarrow> (int \<times> parsedGoroutine) list \<Rightarrow> (int \<times> GoroutineTimeSeries) list \<Rightarrow> (int \<times> GoroutineTimeSeries) list" where
  \<comment> \<open>the inner loop of the first pass, over the goroutines of one snapshot\<close>
  "addGoros ts [] goroSeries = goroSeries"
| "addGoros ts ((goroID, g) # rest) goroSeries =
     addGoros ts rest
       (appendEntry goroID
          \<lparr>Timestamp = ts, State = state g, Stack = stack g, CreatedBy = createdBy g\<rparr>
          goroSeries)"

fun firstPass :: "nat list \<Rightarrow> parseResult list \<Rightarrow> (int \<times> GoroutineTimeSeries) list \<times> int list \<times> int list
    \<Rightarrow> (int \<times> GoroutineTimeSeries) list \<times> int list \<times> int list" where
  \<comment> \<open>the first pass over \<open>allResults\<close>, with \<open>goroSeries\<close>, \<open>statsTimestamps\<close> and
      \<open>statsCounts\<close>\<close>
  "firstPass seed [] acc = acc"
| "firstPass seed (r # rs) (goroSeries, statsTimestamps, statsCounts) =
     (let ts = unixSeconds (timestamp r)
      in firstPass seed rs
           (addGoros ts (mapRange seed (goros r)) goroSeries,
            statsTimestamps @ [ts],
            statsCounts @ [int (length (goros r))]))"

text \<open>
  The second pass. The ids are cut into chunks, one for each worker; a worker collects
  its occurrences in a map of its own, turns the map into a list and sends it; the
  lists are merged into \<open>funcOccurrences\<close>. The workers run concurrently and each
  pair of a function and an id comes from one worker only, so the order in which the
  lists arrive does not show in the merged map; the model takes them in the order of
  the chunks.
\<close>

fun chunkLoop :: "nat \<Rightarrow> nat \<Rightarrow> nat \<Rightarrow> 'a list \<Rightarrow> 'a list list" where
  \<comment> \<open>\<open>chunkLoop k i chunkSize ids\<close>: the slices handed out from worker \<open>i\<close> on, \<open>k\<close>
      workers being left\<close>
  "chunkLoop 0 i chunkSize ids = []"
| "chunkLoop (Suc k) i chunkSize ids =
     (let start = i * chunkSize in
      if start \<ge> length ids then []
      else
        (let end' = (if start + chunkSize > length ids then length ids else start + chunkSize)
         in take (end' - start) (drop start ids) # chunkLoop k (Suc i) chunkSize ids))"

definition putOcc :: "string \<Rightarrow> int \<Rightarrow> FuncOccurrence \<Rightarrow> (string \<times> (int \<times> FuncOccurrence) list) list
    \<Rightarrow> (string \<times> (int \<times> FuncOccurrence) list) list" where
  \<comment> \<open>\<open>m[fn][goroID] = occ\<close>, the inner map being made when \<open>m[fn]\<close> is \<open>nil\<close>\<close>
  "putOcc fn goroID occ m =
     AList.update fn
       (AList.update goroID occ (case map_of m fn of None \<Rightarrow> [] | Some goroMap \<Rightarrow> goroMap)) m"

definition seriesFuncs :: "nat list \<Rightarrow> GoroutineTimeSeries \<Rightarrow> string list" where
  \<comment> \<open>the keys of the set \<open>allFuncs\<close> of one goroutine, in the order of a \<open>range\<close>\<close>
  "seriesFuncs seed series =
     mapRange seed (remdups (concat (map (\<lambda>entry. extractFuncsFromStack (Stack entry)) (Entries series))))"

fun workerLoop :: "nat list \<Rightarrow> string \<Rightarrow> (int \<times> GoroutineTimeSeries) list \<Rightarrow> int list
    \<Rightarrow> (string \<times> (int \<times> FuncOccurrence) list) list \<Rightarrow> (string \<times> (int \<times> FuncOccurrence) list) list" where
  \<comment> \<open>the loop of a worker over its ids, \<open>localFuncMap\<close> being its map\<close>
  "workerLoop seed host goroSeries [] localFuncMap = localFuncMap"
| "workerLoop seed host goroSeries (goroID # ids) localFuncMap =
     (case map_of goroSeries goroID of
        None \<Rightarrow> workerLoop seed host goroSeries ids localFuncMap
      | Some series \<Rightarrow>
          if length (Entries series) = 0 then workerLoop seed host goroSeries ids localFuncMap
          else
            (let occ = \<lparr>Host = host, GoroutineID = goroID,
                        FirstSeen = Timestamp (Entries series ! 0),
                        LastSeen = Timestamp (Entries series ! (length (Entries series) - 1))\<rparr>
             in workerLoop seed host goroSeries ids
                  (fold (\<lambda>fn. putOcc fn goroID occ) (seriesFuncs seed series) localFuncMap)))"

definition workerResults :: "nat list \<Rightarrow> string \<Rightarrow> (int \<times> GoroutineTimeSeries) list \<Rightarrow> int list
    \<Rightarrow> (string \<times> int \<times> FuncOccurrence) list" where
  \<comment> \<open>\<open>localResults\<close>: the map of the worker as a list\<close>
  "workerResults seed host goroSeries ids =
     concat (map (\<lambda>(fn, goroMap). map (\<lambda>(goroID, occ). (fn, goroID, occ)) (mapRange seed goroMap))
                 (mapRange seed (workerLoop seed host goroSeries ids [])))"

definition secondPass :: "nat list \<Rightarrow> string \<Rightarrow> nat \<Rightarrow> (int \<times> GoroutineTimeSeries) list
    \<Rightarrow> (string \<times> (int \<times> FuncOccurrence) list) list" where
  "secondPass seed host numWorkers goroSeries =
     (let goroIDs = map fst (mapRange seed goroSeries);
          chunkSize = (length goroIDs + numWorkers - 1) div numWorkers
      in fold (\<lambda>results funcOccurrences.
                 fold (\<lambda>(fn, goroID, occ). putOcc fn goroID occ) results funcOccurrences)
              (map (workerResults seed host goroSeries) (chunkLoop numWorkers 0 chunkSize goroIDs))
              [])"

text \<open>Writing the time series, in batches of 1000.\<close>

fun writeSeries :: "string \<Rightarrow> (int \<times> GoroutineTimeSeries) list \<Rightarrow> store \<times> (string \<times> dbValue) list \<times> nat
    \<Rightarrow> store \<times> (string \<times> dbValue) list \<times> nat" where
  \<comment> \<open>the loop, with the store, the open batch and \<open>batchSize\<close>\<close>
  "writeSeries host [] acc = acc"
| "writeSeries host ((goroID, series) # rest) (db, batch, batchSize) =
     (let batch' = batch @ [(seriesKey host goroID, SeriesValue series)];
          batchSize' = Suc batchSize
      in if batchSize' \<ge> 1000 then writeSeries host rest (batchCommit db batch', [], 0)
         else writeSeries host rest (db, batch', batchSize'))"

definition writeAllSeries :: "nat list \<Rightarrow> string \<Rightarrow> (int \<times> GoroutineTimeSeries) list \<Rightarrow> store \<Rightarrow> store" where
  "writeAllSeries seed host goroSeries db =
     (case writeSeries host (mapRange seed goroSeries) (db, [], 0) of
        (db', batch, batchSize) \<Rightarrow> if batchSize > 0 then batchCommit db' batch else db')"

text \<open>The children index.\<close>

fun findParent :: "StackEntry list \<Rightarrow> int \<times> string" where
  \<comment> \<open>the loop over the entries that sets \<open>parentID\<close> and \<open>funcs\<close>: both are left at
      their zero values when no entry names a parent\<close>
  "findParent [] = (0, [])"
| "findParent (entry # entries) =
     (if CreatedBy entry \<noteq> 0 then (CreatedBy entry, extractFirstTwoFuncs (Stack entry))
      else findParent entries)"

fun buildChildren :: "(int \<times> GoroutineTimeSeries) list \<Rightarrow> (int \<times> ChildInfo list) list \<Rightarrow> (int \<times> ChildInfo list) list" where
  "buildChildren [] childrenIndex = childrenIndex"
| "buildChildren ((goroID, series) # rest) childrenIndex =
     (if length (Entries series) = 0 then buildChildren rest childrenIndex
      else
        (case findParent (Entries series) of
           (parentID, fs) \<Rightarrow>
             if parentID = 0 then buildChildren rest childrenIndex
             else buildChildren rest
                    (AList.update parentID
                       ((case map_of childrenIndex parentID of None \<Rightarrow> [] | Some cs \<Rightarrow> cs) @
                        [\<lparr>ID = goroID, Funcs = fs,
                          ChildFirstSeen = Timestamp (Entries series ! 0),
                          ChildLastSeen = Timestamp (Entries series ! (length (Entries series) - 1))\<rparr>])
                       childrenIndex)))"

fun writeChildren :: "string \<Rightarrow> (int \<times> ChildInfo list) list \<Rightarrow> store \<Rightarrow> store" where
  "writeChildren host [] db = db"
| "writeChildren host ((parentID, children) # rest) db =
     writeChildren host rest (dbSet db (childrenKey host parentID) (ChildrenValue children))"

text \<open>Merging the function occurrences into the index of the store.\<close>

definition readFuncIndex :: "store \<Rightarrow> string \<Rightarrow> FuncIndex" where
  \<comment> \<open>\<open>existing\<close>: the stored index, or the zero value when the key is absent or its
      value does not decode to an index\<close>
  "readFuncIndex db key =
     (case dbGet db key of
        Some (FuncIndexValue existing) \<Rightarrow> existing
      | _ \<Rightarrow> \<lparr>Occurrences = []\<rparr>)"

fun mergeFuncs :: "nat list \<Rightarrow> (string \<times> (int \<times> FuncOccurrence) list) list \<Rightarrow> store \<Rightarrow> store" where
  "mergeFuncs seed [] db = db"
| "mergeFuncs seed ((funcName, goroMap) # rest) db =
     (let existing = readFuncIndex db (funcKey funcName);
          existing' = \<lparr>Occurrences = Occurrences existing @ map snd (mapRange seed goroMap)\<rparr>
      in mergeFuncs seed rest (dbSet db (funcKey funcName) (FuncIndexValue existing')))"

datatype error = Fatal | Panic

text \<open>
  A host directory: the files that \<open>filepath.Glob\<close> finds in it, \<open>None\<close> when the host
  name makes the pattern malformed. The files are listed in the order in which the
  workers deliver their results, which is any order; the model has no use for their names.
\<close>

type_synonym hostDir = "snapshotFile list option"

definition processHost :: "nat list \<Rightarrow> store \<Rightarrow> hostDir \<Rightarrow> string \<Rightarrow> int \<Rightarrow> error + store \<times> string list" where
  \<comment> \<open>the updated store and the names of the functions of the host. With no worker no
      file is parsed, and the chunk size then divides by zero; a negative number of workers
      is refused when the channel of the second pass is made. Both panic before any write.\<close>
  "processHost seed db dir host numWorkers =
     (case dir of
        None \<Rightarrow> Inr (db, [])
      | Some files \<Rightarrow>
          if numWorkers \<le> 0 then Inl Panic
          else
            (let allResults = sort_key timestamp (List.map_filter (parseSnapshotFile seed) files)
             in case firstPass seed allResults ([], [], []) of
                  (goroSeries, statsTimestamps, statsCounts) \<Rightarrow>
                    (let funcOccurrences = secondPass seed host (nat numWorkers) goroSeries;
                         db1 = writeAllSeries seed host goroSeries db;
                         childrenIndex = buildChildren (mapRange seed goroSeries) [];
                         db2 = writeChildren host (mapRange seed childrenIndex) db1;
                         db3 = dbSet db2 (statsKey host) (StatsValue statsTimestamps statsCounts);
                         db4 = mergeFuncs seed (mapRange seed funcOccurrences) db3
                     in Inr (db4, map fst funcOccurrences))))"

text \<open>
  The rebuild. \<open>inputDir\<close> is what \<open>os.ReadDir\<close> returns: \<open>None\<close> when it fails,
  else the entries with their name, whether they are a directory, and their contents
  as a host directory. The store starts empty, its path having been removed.
\<close>

record dirEntry =
  Name :: string
  IsDir :: bool
  Dir :: hostDir

definition findHosts :: "dirEntry list option \<Rightarrow> dirEntry list option" where
  "findHosts inputDir = map_option (filter IsDir) inputDir"

fun hostLoop :: "nat list \<Rightarrow> int \<Rightarrow> dirEntry list \<Rightarrow> store \<times> string list \<Rightarrow> error + store \<times> string list" where
  \<comment> \<open>the loop over the hosts, with the store and the set \<open>allFuncs\<close>\<close>
  "hostLoop seed numWorkers [] acc = Inr acc"
| "hostLoop seed numWorkers (h # hs) (db, allFuncs) =
     (case processHost seed db (Dir h) (Name h) numWorkers of
        Inl e \<Rightarrow> Inl e
      | Inr (db', fs) \<Rightarrow> hostLoop seed numWorkers hs (db', fold List.insert fs allFuncs))"

definition runIndex :: "nat list \<Rightarrow> dirEntry list option \<Rightarrow> int \<Rightarrow> error + store" where
  "runIndex seed inputDir numWorkers =
     (case findHosts inputDir of
        None \<Rightarrow> Inl Fatal
      | Some hosts \<Rightarrow>
          (let db = dbSet [] ''m:hosts'' (StringsValue (map Name hosts))
           in case hostLoop seed numWorkers hosts (db, []) of
                Inl e \<Rightarrow> Inl e
              | Inr (db', allFuncs) \<Rightarrow>
                  Inr (dbSet db' ''m:funcs'' (StringsValue (sort allFuncs)))))"

section \<open>Notions used in the statements\<close>

definition digitsValue :: "string \<Rightarrow> nat" where
  "digitsValue ds = foldl (\<lambda>a c. 10 * a + (of_char c - 48)) 0 ds"

definition seriesWrites :: "string \<Rightarrow> (int \<times> GoroutineTimeSeries) list \<Rightarrow> store" where
  "seriesWrites host xs = map (\<lambda>(goroID, series). (seriesKey host goroID, SeriesValue series)) xs"

definition childrenWrites :: "string \<Rightarrow> (int \<times> ChildInfo list) list \<Rightarrow> store" where
  "childrenWrites host xs = map (\<lambda>(parentID, children). (childrenKey host parentID, ChildrenValue children)) xs"

definition entryOf :: "parseResult \<Rightarrow> parsedGoroutine \<Rightarrow> StackEntry" where
  \<comment> \<open>the entry that the first pass makes of a goroutine of a snapshot\<close>
  "entryOf r g =
     \<lparr>Timestamp = unixSeconds (timestamp r), State = state g, Stack = stack g, CreatedBy = createdBy g\<rparr>"

definition entriesOf :: "parseResult list \<Rightarrow> int \<Rightarrow> StackEntry list" where
  \<comment> \<open>the entries of a goroutine: one for each snapshot that has it, in the order of the snapshots\<close>
  "entriesOf rs goroID =
     concat (map (\<lambda>r. case map_of (goros r) goroID of None \<Rightarrow> [] | Some g \<Rightarrow> [entryOf r g]) rs)"


definition parsedFiles :: "nat list \<Rightarrow> snapshotFile list \<Rightarrow> parseResult list" where
  \<comment> \<open>the results of the files that are parsed\<close>
  "parsedFiles seed files = List.map_filter (parseSnapshotFile seed) files"

definition childrenInv :: "(int \<times> GoroutineTimeSeries) list \<Rightarrow> (int \<times> ChildInfo list) list \<Rightarrow> bool" where
  \<comment> \<open>what holds of the children index when the series \<open>seen\<close> have been gone through\<close>
  "childrenInv seen childrenIndex \<longleftrightarrow>
     distinct (map fst childrenIndex) \<and>
     (\<forall>p cs. map_of childrenIndex p = Some cs \<longrightarrow>
        distinct (map ID cs) \<and>
        (\<forall>c\<in>set cs. \<exists>series. (ID c, series) \<in> set seen \<and> p \<noteq> 0
            \<and> findParent (Entries series) = (p, Funcs c)))"



definition isDataKey :: "string \<Rightarrow> bool" where
  \<comment> \<open>the keys of the records of a host: time series, children, snapshot counts, function index\<close>
  "isDataKey key \<longleftrightarrow> take 2 key \<in> {''g:'', ''c:'', ''s:'', ''f:''}"

definition runStore :: "error + store \<Rightarrow> store" where
  \<comment> \<open>the store that \<open>runIndex\<close> leaves, empty when it stops with an error\<close>
  "runStore r = (case r of Inl e \<Rightarrow> [] | Inr db \<Rightarrow> db)"

definition orphanCorpus :: "dirEntry list option" where
  \<comment> \<open>one host with one snapshot of one goroutine, 22, whose parent 7 is in no snapshot\<close>
  "orphanCorpus =
     Some [\<lparr>Name = ''h'', IsDir = True,
            Dir = Some [\<lparr>fileTime = Some 10000000000,
                         fileData = Some ''goroutine 22 [select]:\<newline>main.worker()\<newline>created by main.start in goroutine 7\<newline>''\<rparr>]\<rparr>]"

definition occOf :: "string \<Rightarrow> (int \<times> GoroutineTimeSeries) list \<Rightarrow> int \<Rightarrow> FuncOccurrence" where
  \<comment> \<open>the occurrence that a worker makes for a goroutine\<close>
  "occOf host goroSeries goroID =
     (case map_of goroSeries goroID of
        None \<Rightarrow> \<lparr>Host = host, GoroutineID = goroID, FirstSeen = 0, LastSeen = 0\<rparr>
      | Some series \<Rightarrow>
          \<lparr>Host = host, GoroutineID = goroID,
            FirstSeen = Timestamp (Entries series ! 0),
            LastSeen = Timestamp (Entries series ! (length (Entries series) - 1))\<rparr>)"

definition mentions :: "(int \<times> GoroutineTimeSeries) list \<Rightarrow> string \<Rightarrow> int \<Rightarrow> bool" where
  \<comment> \<open>the function is among the names taken from the stacks of the series of the goroutine\<close>
  "mentions goroSeries fn goroID \<longleftrightarrow>
     (\<exists>series. map_of goroSeries goroID = Some series \<and> Entries series \<noteq> [] \<and>
        fn \<in> set (concat (map (\<lambda>entry. extractFuncsFromStack (Stack entry)) (Entries series))))"

definition occKeys :: "(string \<times> (int \<times> FuncOccurrence) list) list \<Rightarrow> (string \<times> int) set" where
  "occKeys m = {(fn, goroID). \<exists>goroMap. map_of m fn = Some goroMap \<and> goroID \<in> fst ` set goroMap}"

definition occGood :: "(int \<Rightarrow> FuncOccurrence) \<Rightarrow> (string \<times> (int \<times> FuncOccurrence) list) list \<Rightarrow> bool" where
  "occGood F m \<longleftrightarrow>
     distinct (map fst m) \<and>
     (\<forall>fn goroMap. map_of m fn = Some goroMap \<longrightarrow>
        distinct (map fst goroMap) \<and> (\<forall>(goroID, occ)\<in>set goroMap. occ = F goroID))"

definition goroSeriesOf :: "nat list \<Rightarrow> snapshotFile list \<Rightarrow> (int \<times> GoroutineTimeSeries) list" where
  \<comment> \<open>the map \<open>goroSeries\<close> that \<open>processHost\<close> builds from the files of a host\<close>
  "goroSeriesOf seed files =
     fst (firstPass seed (sort_key timestamp (List.map_filter (parseSnapshotFile seed) files)) ([], [], []))"

definition hostFiles :: "snapshotFile list" where
  \<comment> \<open>the files of a host, as they arrive: two dumps, the later one first, a file whose
      name gives no time and a file that cannot be read\<close>
  "hostFiles =
     [\<lparr>fileTime = Some 20000000000,
       fileData = Some ''goroutine 1 [running]:\<newline>main.main()\<newline>\<newline>goroutine 22 [select]:\<newline>main.worker(0xc000012345)\<newline>created by main.main in goroutine 1\<newline>''\<rparr>,
      \<lparr>fileTime = Some 10000000000,
       fileData = Some ''goroutine 22 [running]:\<newline>main.worker(0xc000012345)\<newline>created by main.main in goroutine 1\<newline>''\<rparr>,
      \<lparr>fileTime = None, fileData = Some ''goroutine 3 [running]:\<newline>main.lost()\<newline>''\<rparr>,
      \<lparr>fileTime = Some 30000000000, fileData = None\<rparr>]"

definition earlierStore :: store where
  \<comment> \<open>the store after a host \<open>a\<close> whose goroutine 5 ran \<open>main.worker\<close>\<close>
  "earlierStore =
     [(''f:main.worker'',
       FuncIndexValue \<lparr>Occurrences = [\<lparr>Host = ''a'', GoroutineID = 5, FirstSeen = 1, LastSeen = 2\<rparr>]\<rparr>)]"

definition workerChild :: ChildInfo where
  "workerChild = \<lparr>ID = 22, Funcs = ''main.worker'', ChildFirstSeen = 10, ChildLastSeen = 20\<rparr>"

definition hostStore :: store where
  \<comment> \<open>the store after host \<open>b\<close> has been processed on \<open>earlierStore\<close>\<close>
  "hostStore =
     [(''f:main.worker'',
       FuncIndexValue \<lparr>Occurrences = [\<lparr>Host = ''a'', GoroutineID = 5, FirstSeen = 1, LastSeen = 2\<rparr>]\<rparr>),
      (''g:b:22'',
       SeriesValue \<lparr>Entries =
         [\<lparr>Timestamp = 10, State = ''running'', Stack = ''main.worker(...)\<newline>created by main.main'', CreatedBy = 1\<rparr>,
          \<lparr>Timestamp = 20, State = ''select'', Stack = ''main.worker(...)\<newline>created by main.main'', CreatedBy = 1\<rparr>]\<rparr>),
      (''g:b:1'',
       SeriesValue \<lparr>Entries =
         [\<lparr>Timestamp = 20, State = ''running'', Stack = ''main.main()'', CreatedBy = 0\<rparr>]\<rparr>),
      (''c:b:1'', ChildrenValue [workerChild]),
      (''s:b'', StatsValue [10, 20] [1, 2]),
      (''f:main.worker'',
       FuncIndexValue \<lparr>Occurrences =
         [\<lparr>Host = ''a'', GoroutineID = 5, FirstSeen = 1, LastSeen = 2\<rparr>,
          \<lparr>Host = ''b'', GoroutineID = 22, FirstSeen = 10, LastSeen = 20\<rparr>]\<rparr>),
      (''f:main.main'',
       FuncIndexValue \<lparr>Occurrences =
         [\<lparr>Host = ''b'', GoroutineID = 1, FirstSeen = 20, LastSeen = 20\<rparr>]\<rparr>)]"


section \<open>Properties of the normalizer\<close>

lemma stripPrefix_Some: "stripPrefix p s = Some r \<longleftrightarrow> s = p @ r"
  by (induction p s rule: stripPrefix.induct) auto

lemma stripPrefix_None: "stripPrefix p s = None \<longleftrightarrow> (\<forall>r. s \<noteq> p @ r)"
  by (induction p s rule: stripPrefix.induct) auto

lemma hexPtrReMatch_Nil [simp]: "hexPtrReMatch [] = None"
  by (simp add: hexPtrReMatch_def)

lemma hexPtrReMatch_bounds: "hexPtrReMatch s = Some n \<Longrightarrow> 3 \<le> n \<and> n \<le> length s"
proof -
  assume a: "hexPtrReMatch s = Some n"
  then obtain r where s: "s = ''0x'' @ r"
    by (auto simp: hexPtrReMatch_def stripPrefix_Some split: option.splits)
  have l: "length (takeWhile isHex r) + length (dropWhile isHex r) = length r"
    by (metis length_append takeWhile_dropWhile_id)
  from a s l show ?thesis
    by (auto simp: hexPtrReMatch_def split: list.splits if_splits)
qed

declare hexPtrReplace.simps [simp del] createdByReplace.simps [simp del]

lemma hexPtrReplace_Nil [simp]: "hexPtrReplace [] = []"
  by (simp add: hexPtrReplace.simps)

lemma hexPtrReplace_match:
  "hexPtrReMatch s = Some n \<Longrightarrow> hexPtrReplace s = ''...'' @ hexPtrReplace (drop n s)"
  by (subst hexPtrReplace.simps) (auto simp: hexPtrReMatch_def)

lemma hexPtrReplace_nomatch:
  "hexPtrReMatch (c # cs) = None \<Longrightarrow> hexPtrReplace (c # cs) = c # hexPtrReplace cs"
  by (subst hexPtrReplace.simps) simp

lemma hexPtrReMatch_None_iff:
  "hexPtrReMatch s = None \<longleftrightarrow> (\<forall>h r. s = CHR ''0'' # CHR ''x'' # h # r \<longrightarrow> \<not> isHex h)"
proof (cases "stripPrefix ''0x'' s")
  case None
  then have "\<And>r. s \<noteq> ''0x'' @ r" using stripPrefix_None by blast
  then have "\<And>r. s \<noteq> CHR ''0'' # CHR ''x'' # r" by simp
  with None show ?thesis by (simp add: hexPtrReMatch_def)
next
  case (Some r)
  then have s: "s = CHR ''0'' # CHR ''x'' # r" by (simp add: stripPrefix_Some)
  show ?thesis
    by (cases r) (auto simp: hexPtrReMatch_def s split: list.splits)
qed

lemma hexPtrReplace_head:
  "hexPtrReplace (c # cs) = c' # t \<Longrightarrow> c' = c \<or> c' = CHR ''.''"
  by (cases "hexPtrReMatch (c # cs)") (auto simp: hexPtrReplace_match hexPtrReplace_nomatch)

lemma hexPtrReplace_eq_Nil [simp]: "hexPtrReplace s = [] \<longleftrightarrow> s = []"
  by (cases s; cases "hexPtrReMatch s") (auto simp: hexPtrReplace_match hexPtrReplace_nomatch)

lemma isHex_dot [simp]: "\<not> isHex CHR ''.''"
  by (simp add: isHex_def)

lemma hexPtrFree_hexPtrReplace: "hexPtrFree (hexPtrReplace s)"
proof (induction s rule: hexPtrReplace.induct)
  case (1 s)
  show ?case
  proof (cases s)
    case Nil
    then show ?thesis by simp
  next
    case (Cons c cs)
    show ?thesis
    proof (cases "hexPtrReMatch s")
      case (Some n)
      with 1 Cons have "hexPtrFree (hexPtrReplace (drop n s))" by simp
      with Some show ?thesis
        by (simp add: hexPtrReplace_match hexPtrReMatch_None_iff)
    next
      case None
      with 1 Cons have IH: "hexPtrFree (hexPtrReplace cs)" by simp
      have "hexPtrReMatch (c # hexPtrReplace cs) = None"
        unfolding hexPtrReMatch_None_iff
      proof (intro allI impI)
        fix h r assume eq: "c # hexPtrReplace cs = CHR ''0'' # CHR ''x'' # h # r"
        show "\<not> isHex h"
        proof
          assume hex: "isHex h"
          from eq have c: "c = CHR ''0''" and R: "hexPtrReplace cs = CHR ''x'' # h # r" by auto
          from R obtain cs' where cs: "cs = CHR ''x'' # cs'"
            using hexPtrReplace_head [of "hd cs" "tl cs" "CHR ''x''" "h # r"]
            by (cases cs) auto
          have "hexPtrReMatch (CHR ''x'' # cs') = None"
            by (simp add: hexPtrReMatch_None_iff)
          with R cs have R': "hexPtrReplace cs' = h # r"
            by (simp add: hexPtrReplace_nomatch)
          then obtain cs'' where cs': "cs' = h # cs''"
            using hexPtrReplace_head [of "hd cs'" "tl cs'" h r] hex
            by (cases cs') auto
          from None Cons c cs cs' hex show False
            by (simp add: hexPtrReMatch_None_iff)
        qed
      qed
      with None Cons IH show ?thesis
        by (simp add: hexPtrReplace_nomatch)
    qed
  qed
qed

lemma hexPtrReplace_free: "hexPtrFree s \<Longrightarrow> hexPtrReplace s = s"
  by (induction s) (auto simp: hexPtrReplace_nomatch)

lemma offsetReMatch_hexPtr:
  "offsetReMatch (c # cs) \<Longrightarrow> hexPtrReMatch cs \<noteq> None"
proof -
  assume "offsetReMatch (c # cs)"
  then obtain r where cs: "cs = ''0x'' @ r" and tw: "takeWhile isHex r \<noteq> []"
    by (auto simp: offsetReMatch_def stripPrefix_Some split: option.splits if_splits)
  from tw obtain h t where "r = h # t" "isHex h"
    by (cases r) (auto split: if_splits)
  with cs show ?thesis by (auto simp: hexPtrReMatch_None_iff)
qed

lemma offsetReplace_free: "hexPtrFree s \<Longrightarrow> offsetReplace s = s"
proof (induction s)
  case Nil
  then show ?case by simp
next
  case (Cons c cs)
  have "\<not> offsetReMatch (c # cs)"
  proof
    assume "offsetReMatch (c # cs)"
    then have "hexPtrReMatch cs \<noteq> None" by (rule offsetReMatch_hexPtr)
    with Cons.prems show False by (cases cs) auto
  qed
  with Cons show ?case by simp
qed

lemma createdByReplace_Nil [simp]: "createdByReplace [] = []"
  by (simp add: createdByReplace.simps)

lemma createdByReplace_match:
  "createdByReMatch s = Some (g, n) \<Longrightarrow>
   createdByReplace s = take g s @ createdByReplace (drop n s)"
  by (subst createdByReplace.simps) (auto simp: createdByReMatch_def)

lemma createdByReplace_nomatch:
  "createdByReMatch (c # cs) = None \<Longrightarrow> createdByReplace (c # cs) = c # createdByReplace cs"
  by (subst createdByReplace.simps) simp

lemma createdByReplace_free: "createdByFree s \<Longrightarrow> createdByReplace s = s"
  by (induction s) (auto simp: createdByReplace_nomatch)

lemma lastInGoroutine_Some:
  "lastInGoroutine l = Some k \<Longrightarrow> k < length l \<and> inGoroutineAt (drop k l)"
  by (induction l arbitrary: k) (auto split: option.splits if_splits)

lemma inGoroutineAt_length: "inGoroutineAt s \<Longrightarrow> 15 \<le> length s"
  by (auto simp: inGoroutineAt_def stripPrefix_Some split: option.splits list.splits)

lemma createdByReMatch_bounds:
  assumes "createdByReMatch s = Some (g, n)"
  shows "g < n \<and> n \<le> length s"
proof -
  from assms obtain r c l k where s: "s = ''created by '' @ r"
    and tw: "takeWhile (\<lambda>c. c \<noteq> CHR 0x0A) r = c # l"
    and k: "lastInGoroutine l = Some k"
    and g: "g = 11 + Suc k"
    and n: "n = g + 14 + length (takeWhile isDigit (drop (g + 14) s))"
    by (auto simp: createdByReMatch_def stripPrefix_Some Let_def split: option.splits list.splits)
  from k have "k < length l" "15 \<le> length (drop k l)"
    using lastInGoroutine_Some inGoroutineAt_length by blast+
  then have "k + 15 \<le> length l" by simp
  moreover have "length (c # l) \<le> length r"
    unfolding tw [symmetric] by (rule length_takeWhile_le)
  ultimately have "g + 14 \<le> length s" using g s by simp
  moreover have "length (takeWhile isDigit (drop (g + 14) s)) \<le> length (drop (g + 14) s)"
    by (rule length_takeWhile_le)
  ultimately show ?thesis using n by simp
qed

lemma length_createdByReplace: "length (createdByReplace s) \<le> length s"
proof (induction s rule: createdByReplace.induct)
  case (1 s)
  show ?case
  proof (cases s)
    case Nil
    then show ?thesis by simp
  next
    case (Cons c cs)
    show ?thesis
    proof (cases "createdByReMatch s")
      case None
      with 1 Cons show ?thesis by (simp add: createdByReplace_nomatch)
    next
      case (Some p)
      obtain g n where p: "p = (g, n)" by (cases p)
      from Some p have b: "g < n" "n \<le> length s" using createdByReMatch_bounds by blast+
      from 1 Cons Some p have "length (createdByReplace (drop n s)) \<le> length s - n" by simp
      with b Some p show ?thesis by (simp add: createdByReplace_match)
    qed
  qed
qed

lemma length_hexPtrReplace: "length (hexPtrReplace s) \<le> length s"
proof (induction s rule: hexPtrReplace.induct)
  case (1 s)
  show ?case
  proof (cases s)
    case Nil
    then show ?thesis by simp
  next
    case (Cons c cs)
    show ?thesis
    proof (cases "hexPtrReMatch s")
      case None
      with 1 Cons show ?thesis by (simp add: hexPtrReplace_nomatch)
    next
      case (Some n)
      then have b: "3 \<le> n" "n \<le> length s" using hexPtrReMatch_bounds by blast+
      from 1 Cons Some have "length (hexPtrReplace (drop n s)) \<le> length s - n" by simp
      with b Some show ?thesis by (simp add: hexPtrReplace_match)
    qed
  qed
qed

lemma createdByReplace_shrinks:
  "\<not> createdByFree s \<Longrightarrow> length (createdByReplace s) < length s"
proof (induction s)
  case Nil
  then show ?case by simp
next
  case (Cons c cs)
  show ?case
  proof (cases "createdByReMatch (c # cs)")
    case None
    with Cons show ?thesis by (simp add: createdByReplace_nomatch)
  next
    case (Some p)
    obtain g n where p: "p = (g, n)" by (cases p)
    from Some p have b: "g < n" "n \<le> length (c # cs)" using createdByReMatch_bounds by blast+
    have "length (createdByReplace (drop n (c # cs))) \<le> length (c # cs) - n"
      using length_createdByReplace [of "drop n (c # cs)"] by simp
    with b Some p show ?thesis
      by (simp add: createdByReplace_match)
  qed
qed

text \<open>
  Claim C2 (idempotence of the normalizer), as amended. Normalizing a line twice gives the
  same line as normalizing it once if and only if the created-by pattern matches nowhere in
  the line normalized once.
\<close>

theorem cleanStackLine_idempotent_iff:
  "cleanStackLine (cleanStackLine L) = cleanStackLine L \<longleftrightarrow> createdByFree (cleanStackLine L)"
proof -
  let ?N = "cleanStackLine L"
  have free: "hexPtrFree ?N" by (simp add: cleanStackLine_def hexPtrFree_hexPtrReplace)
  have off: "offsetReplace ?N = ?N" using free by (rule offsetReplace_free)
  show ?thesis
  proof
    assume "createdByFree ?N"
    then have "createdByReplace ?N = ?N" by (rule createdByReplace_free)
    with off free show "cleanStackLine ?N = ?N"
      by (simp add: cleanStackLine_def [of ?N] hexPtrReplace_free)
  next
    assume idem: "cleanStackLine ?N = ?N"
    have eq: "length (hexPtrReplace (createdByReplace ?N)) = length ?N"
      using idem off by (simp add: cleanStackLine_def [of ?N])
    show "createdByFree ?N"
    proof (rule ccontr)
      assume "\<not> createdByFree ?N"
      then have "length (createdByReplace ?N) < length ?N"
        by (rule createdByReplace_shrinks)
      moreover have "length (hexPtrReplace (createdByReplace ?N)) \<le> length (createdByReplace ?N)"
        by (rule length_hexPtrReplace)
      ultimately show False using eq by simp
    qed
  qed
qed

text \<open>
  A line on which the second pass changes the result: the first pass gives
  \<open>created by main.run in goroutine 1\<close>, the second \<open>created by main.run\<close>.
\<close>

theorem cleanStackLine_idempotent_counterexample:
  "cleanStackLine (cleanStackLine ''created by main.run in goroutine 1 in goroutine 2'')
     \<noteq> cleanStackLine ''created by main.run in goroutine 1 in goroutine 2''"
  by code_simp

theorem cleanStackLine_idempotent_witness:
  "createdByFree (cleanStackLine ''created by main.start in goroutine 17'') \<and>
   cleanStackLine (cleanStackLine ''created by main.start in goroutine 17'')
     = cleanStackLine ''created by main.start in goroutine 17''"
proof -
  have "createdByFree (cleanStackLine ''created by main.start in goroutine 17'')"
    by code_simp
  then show ?thesis
    using cleanStackLine_idempotent_iff [of "''created by main.start in goroutine 17''"] by blast
qed

lemma isHex_simps [simp]: "\<not> isHex CHR ''x''" "\<not> isHex CHR ''+''" "\<not> isHex CHR ''n''" "isHex CHR ''0''"
  "\<not> isReSpace CHR ''x''" "\<not> isReSpace CHR ''+''" "\<not> isReSpace CHR ''n''" "\<not> isReSpace CHR ''0''"
  by (simp_all add: isHex_def isReSpace_def)


lemma takeWhile_all: "list_all P h \<Longrightarrow> takeWhile P (h @ b) = h @ takeWhile P b"
  by (induction h) auto

lemma dropWhile_all: "list_all P h \<Longrightarrow> dropWhile P (h @ b) = dropWhile P b"
  by (induction h) auto

subsection \<open>The offset pattern\<close>

lemma offsetReMatch_iff:
  "offsetReMatch s \<longleftrightarrow> (\<exists>g w. s = ''+0x'' @ g @ w \<and> g \<noteq> [] \<and> list_all isHex g \<and> list_all isReSpace w)"
proof
  assume "offsetReMatch s"
  then obtain r where s: "s = ''+0x'' @ r" and tw: "takeWhile isHex r \<noteq> []"
    and dw: "list_all isReSpace (dropWhile isHex r)"
    by (auto simp: offsetReMatch_def stripPrefix_Some split: option.splits)
  have "r = takeWhile isHex r @ dropWhile isHex r" by simp
  moreover have "list_all isHex (takeWhile isHex r)"
    by (simp add: list_all_iff) (meson set_takeWhileD)
  ultimately show "\<exists>g w. s = ''+0x'' @ g @ w \<and> g \<noteq> [] \<and> list_all isHex g \<and> list_all isReSpace w"
    using s tw dw by metis
next
  assume "\<exists>g w. s = ''+0x'' @ g @ w \<and> g \<noteq> [] \<and> list_all isHex g \<and> list_all isReSpace w"
  then obtain g w where s: "s = ''+0x'' @ g @ w" and g: "g \<noteq> []" "list_all isHex g"
    and w: "list_all isReSpace w" by blast
  have nh: "takeWhile isHex w = []" "dropWhile isHex w = w"
    using w by (cases w; auto simp: isHex_def isReSpace_def)+
  from g w show "offsetReMatch s"
    by (simp add: offsetReMatch_def s takeWhile_all dropWhile_all nh)
qed


lemma offsetReMatch_head: "offsetReMatch (c # cs) \<Longrightarrow> c = CHR ''+''"
  by (auto simp: offsetReMatch_iff)

lemma offsetReplace_noplus: "CHR ''+'' \<notin> set s \<Longrightarrow> offsetReplace s = s"
  by (induction s) (auto dest: offsetReMatch_head)



subsection \<open>The tail \<open> in goroutine N\<close>\<close>

lemma isDigit_noplus:
  "isDigit c \<Longrightarrow> c \<noteq> CHR ''+'' \<and> c \<noteq> CHR 0x0A \<and> c \<noteq> CHR ''i'' \<and> c \<noteq> CHR '' ''"
  by (auto simp: isDigit_def)

lemma inGoroutineAt_digit: "isDigit c \<Longrightarrow> \<not> inGoroutineAt (c # cs)"
  using isDigit_noplus [of c] by (auto simp: inGoroutineAt_def)

lemma lastInGoroutine_digits: "list_all isDigit d \<Longrightarrow> lastInGoroutine d = None"
  by (induction d) (auto simp: inGoroutineAt_digit)

lemma inGoroutineAt_head:
  "inGoroutineAt (c # c' # cs) \<Longrightarrow> c = CHR '' '' \<and> c' = CHR ''i''"
  by (auto simp: inGoroutineAt_def split: if_splits)
















subsection \<open>A line without a created-by match keeps none when cut short\<close>






subsection \<open>The pointer pattern around one pointer\<close>










subsection \<open>A pointer with its question mark\<close>

lemma not_isHex_mark [simp]: "\<not> isHex CHR ''?''" "\<not> isReSpace CHR ''?''"
  by (simp_all add: isHex_def isReSpace_def)












subsection \<open>Lines whose tail the created-by rewrite drops\<close>


















subsection \<open>Lines that differ in one place have the same normal form\<close>













section \<open>Properties of the model\<close>

subsection \<open>The order of a range\<close>

lemma mset_mapRange: "mset (mapRange seed xs) = mset xs"
proof (induction seed xs rule: mapRange.induct)
  case (3 n ns x xs)
  let ?ys = "x # xs"
  let ?i = "n mod Suc (length xs)"
  have i: "?i < length ?ys" by simp
  have "mset ?ys = mset (take ?i ?ys @ ?ys ! ?i # drop (Suc ?i) ?ys)"
    using id_take_nth_drop [OF i] by simp
  then have "mset ?ys = add_mset (?ys ! ?i) (mset (take ?i ?ys @ drop (Suc ?i) ?ys))"
    by simp
  with 3 show ?case by (simp add: Let_def)
qed simp_all

lemma set_mapRange [simp]: "set (mapRange seed xs) = set xs"
  using mset_mapRange [of seed xs] by (metis set_mset_mset)

lemma length_mapRange [simp]: "length (mapRange seed xs) = length xs"
  using mset_mapRange [of seed xs] by (metis size_mset)

lemma map_mapRange: "map f (mapRange seed xs) = mapRange seed (map f xs)"
proof (induction seed xs rule: mapRange.induct)
  case (3 n ns x xs)
  let ?i = "n mod Suc (length xs)"
  have i: "?i < length (x # xs)" by simp
  have 1: "map f (x # xs) ! ?i = f ((x # xs) ! ?i)" using i by (rule nth_map)
  have 2: "take ?i (map f (x # xs)) @ drop (Suc ?i) (map f (x # xs))
      = map f (take ?i (x # xs) @ drop (Suc ?i) (x # xs))"
    by (simp only: take_map drop_map map_append)
  have "mapRange (n # ns) (map f (x # xs))
      = (map f (x # xs) ! ?i) # mapRange ns (take ?i (map f (x # xs)) @ drop (Suc ?i) (map f (x # xs)))"
    by (simp add: Let_def)
  also have "\<dots> = f ((x # xs) ! ?i) # map f (mapRange ns (take ?i (x # xs) @ drop (Suc ?i) (x # xs)))"
    unfolding 1 2 using 3 by (simp add: Let_def)
  finally show ?case by (simp add: Let_def)
qed simp_all

lemma distinct_mapRange [simp]: "distinct (mapRange seed xs) = distinct xs"
  using mset_mapRange [of seed xs] by (metis mset_eq_imp_distinct_iff)

lemma distinct_keys_mapRange [simp]: "distinct (map fst (mapRange seed xs)) = distinct (map fst xs)"
  by (simp add: map_mapRange)

lemma map_of_mapRange:
  "distinct (map fst xs) \<Longrightarrow> map_of (mapRange seed xs) = map_of xs"
  by (rule map_of_inject_set [THEN iffD2]) simp_all

subsection \<open>The store\<close>

lemma dbGet_dbSet: "dbGet (dbSet db k v) k' = (if k' = k then Some v else dbGet db k')"
  by (simp add: dbGet_def dbSet_def)

lemma dbGet_append_other:
  "k \<notin> fst ` set new \<Longrightarrow> dbGet (db @ new) k = dbGet db k"
  by (simp add: dbGet_def map_add_def map_of_eq_None_iff [THEN iffD2] split: option.splits)

lemma dbGet_append_distinct:
  "distinct (map fst new) \<Longrightarrow> (k, v) \<in> set new \<Longrightarrow> dbGet (db @ new) k = Some v"
proof -
  assume "distinct (map fst new)" "(k, v) \<in> set new"
  then have "map_of (rev new) k = Some v" by (simp add: distinct_rev rev_map [symmetric])
  then show ?thesis by (simp add: dbGet_def map_add_def)
qed

subsection \<open>Decimal numerals\<close>

lemma digitsValue_snoc: "digitsValue (ds @ [c]) = 10 * digitsValue ds + (of_char c - 48)"
  by (simp add: digitsValue_def)

declare digitsOf.simps [simp del]

lemma digitsValue_digitsOf: "digitsValue (digitsOf n) = n"
proof (induction n rule: digitsOf.induct)
  case (1 n)
  show ?case
  proof (cases "n < 10")
    case True
    then show ?thesis by (subst digitsOf.simps) (simp add: digitsValue_def)
  next
    case False
    have "(48 + n mod 10) mod 256 = 48 + n mod 10" by simp
    with 1 False show ?thesis
      by (subst digitsOf.simps) (simp add: digitsValue_snoc)
  qed
qed

lemma digitsOf_inj: "digitsOf n = digitsOf m \<Longrightarrow> n = m"
  by (metis digitsValue_digitsOf)

lemma digit_not_minus: "d < 10 \<Longrightarrow> char_of (48 + d :: nat) \<noteq> CHR ''-''"
proof
  assume d: "d < 10" and "char_of (48 + d) = CHR ''-''"
  then have "of_char (char_of (48 + d) :: char) = (of_char CHR ''-'' :: nat)" by simp
  with d show False by simp
qed

lemma digitsOf_no_minus: "CHR ''-'' \<notin> set (digitsOf n)"
proof (induction n rule: digitsOf.induct)
  case (1 n)
  show ?case
  proof (cases "n < 10")
    case True
    then show ?thesis using digit_not_minus [of n] by (subst digitsOf.simps) auto
  next
    case False
    have "n mod 10 < 10" by simp
    from digit_not_minus [OF this] 1 False show ?thesis
      by (subst digitsOf.simps) auto
  qed
qed

lemma digitsOf_not_Nil: "digitsOf n \<noteq> []"
  by (subst digitsOf.simps) simp

lemma formatInt_inj: "formatInt i = formatInt j \<Longrightarrow> i = j"
proof -
  assume eq: "formatInt i = formatInt j"
  have hd: "\<And>n. hd (digitsOf n) \<noteq> CHR ''-''"
    using digitsOf_no_minus digitsOf_not_Nil by (metis list.set_sel(1))
  show ?thesis
  proof (cases "i < 0"; cases "j < 0")
    assume "i < 0" "j < 0"
    with eq have "nat (- i) = nat (- j)" by (simp add: formatInt_def digitsOf_inj)
    with \<open>i < 0\<close> \<open>j < 0\<close> show ?thesis by simp
  next
    assume "i < 0" "\<not> j < 0"
    with eq have "CHR ''-'' # digitsOf (nat (- i)) = digitsOf (nat j)" by (simp add: formatInt_def)
    then have "hd (digitsOf (nat j)) = CHR ''-''" by (metis list.sel(1))
    with hd show ?thesis by simp
  next
    assume "\<not> i < 0" "j < 0"
    with eq have "digitsOf (nat i) = CHR ''-'' # digitsOf (nat (- j))" by (simp add: formatInt_def)
    then have "hd (digitsOf (nat i)) = CHR ''-''" by (metis list.sel(1))
    with hd show ?thesis by simp
  next
    assume "\<not> i < 0" "\<not> j < 0"
    with eq have "nat i = nat j" by (simp add: formatInt_def digitsOf_inj)
    with \<open>\<not> i < 0\<close> \<open>\<not> j < 0\<close> show ?thesis by simp
  qed
qed

lemma seriesKey_inj [simp]: "seriesKey host i = seriesKey host j \<longleftrightarrow> i = j"
  by (auto simp: seriesKey_def dest: formatInt_inj)

lemma childrenKey_inj [simp]: "childrenKey host i = childrenKey host j \<longleftrightarrow> i = j"
  by (auto simp: childrenKey_def dest: formatInt_inj)

lemma funcKey_inj [simp]: "funcKey f = funcKey g \<longleftrightarrow> f = g"
  by (simp add: funcKey_def)

lemma keys_distinct [simp]:
  "seriesKey h i \<noteq> childrenKey h' j" "seriesKey h i \<noteq> statsKey h'" "seriesKey h i \<noteq> funcKey f"
  "childrenKey h i \<noteq> seriesKey h' j" "childrenKey h i \<noteq> statsKey h'" "childrenKey h i \<noteq> funcKey f"
  "statsKey h \<noteq> seriesKey h' j" "statsKey h \<noteq> childrenKey h' j" "statsKey h \<noteq> funcKey f"
  "funcKey f \<noteq> seriesKey h' j" "funcKey f \<noteq> childrenKey h' j" "funcKey f \<noteq> statsKey h'"
  by (simp_all add: seriesKey_def childrenKey_def statsKey_def funcKey_def)

subsection \<open>The writes of a host\<close>

lemma writeSeries_log:
  assumes "writeSeries host xs (db, batch, n) = (db', batch', n')" "n = length batch"
  shows "db' @ batch' = db @ batch @ seriesWrites host xs \<and> n' = length batch'"
  using assms
proof (induction xs arbitrary: db batch n)
  case Nil
  then show ?case by (auto simp: seriesWrites_def)
next
  case (Cons x xs)
  obtain goroID series where x: "x = (goroID, series)" by (cases x)
  show ?case
  proof (cases "Suc n \<ge> 1000")
    case True
    with Cons.prems x have
      "writeSeries host xs (batchCommit db (batch @ [(seriesKey host goroID, SeriesValue series)]), [], 0)
        = (db', batch', n')"
      by (simp add: Let_def)
    from Cons.IH [OF this] show ?thesis
      by (simp add: x seriesWrites_def batchCommit_def)
  next
    case False
    with Cons.prems x have
      "writeSeries host xs (db, batch @ [(seriesKey host goroID, SeriesValue series)], Suc n)
        = (db', batch', n')"
      by (simp add: Let_def)
    from Cons.IH [OF this] Cons.prems(2) show ?thesis
      by (simp add: x seriesWrites_def)
  qed
qed

lemma writeAllSeries_log:
  "writeAllSeries seed host goroSeries db = db @ seriesWrites host (mapRange seed goroSeries)"
proof -
  obtain db' batch' n' where w: "writeSeries host (mapRange seed goroSeries) (db, [], 0) = (db', batch', n')"
    by (metis prod_cases3)
  from writeSeries_log [OF w] have "db' @ batch' = db @ seriesWrites host (mapRange seed goroSeries)"
    and "n' = length batch'" by simp_all
  then show ?thesis
    by (cases batch') (auto simp: writeAllSeries_def w batchCommit_def)
qed

lemma writeChildren_log:
  "writeChildren host xs db = db @ childrenWrites host xs"
  by (induction xs arbitrary: db) (auto simp: childrenWrites_def dbSet_def)

lemma mergeFuncs_log:
  "\<exists>new. mergeFuncs seed xs db = db @ new \<and> map fst new = map (funcKey \<circ> fst) xs"
proof (induction xs arbitrary: db)
  case Nil
  then show ?case by simp
next
  case (Cons x xs)
  obtain fn gm where x: "x = (fn, gm)" by (cases x)
  let ?w = "(funcKey fn, FuncIndexValue \<lparr>Occurrences = Occurrences (readFuncIndex db (funcKey fn)) @ map snd (mapRange seed gm)\<rparr>)"
  from Cons.IH [of "db @ [?w]"] obtain new where
    "mergeFuncs seed xs (db @ [?w]) = (db @ [?w]) @ new" "map fst new = map (funcKey \<circ> fst) xs"
    by blast
  then have "mergeFuncs seed (x # xs) db = db @ (?w # new) \<and> map fst (?w # new) = map (funcKey \<circ> fst) (x # xs)"
    by (simp add: x Let_def dbSet_def)
  then show ?case by blast
qed

lemma readFuncIndex_append_other:
  "k \<notin> fst ` set new \<Longrightarrow> readFuncIndex (db @ new) k = readFuncIndex db k"
  by (simp add: readFuncIndex_def dbGet_append_other)

lemma mergeFuncs_get:
  assumes "distinct (map fst xs)"
  shows "readFuncIndex (mergeFuncs seed xs db) (funcKey fn) =
     (case map_of xs fn of
        None \<Rightarrow> readFuncIndex db (funcKey fn)
      | Some gm \<Rightarrow> \<lparr>Occurrences = Occurrences (readFuncIndex db (funcKey fn)) @ map snd (mapRange seed gm)\<rparr>)"
  using assms
proof (induction xs arbitrary: db)
  case Nil
  then show ?case by simp
next
  case (Cons x xs)
  obtain f gm where x: "x = (f, gm)" by (cases x)
  let ?db = "dbSet db (funcKey f) (FuncIndexValue \<lparr>Occurrences = Occurrences (readFuncIndex db (funcKey f)) @ map snd (mapRange seed gm)\<rparr>)"
  from Cons.prems x have d: "distinct (map fst xs)" and nf: "f \<notin> fst ` set xs" by auto
  have step: "mergeFuncs seed (x # xs) db = mergeFuncs seed xs ?db"
    by (simp add: x Let_def)
  show ?case
  proof (cases "fn = f")
    case True
    with nf have "map_of xs fn = None" by (simp add: map_of_eq_None_iff)
    with Cons.IH [OF d, of ?db] True show ?thesis
      by (simp add: step x readFuncIndex_def dbGet_dbSet)
  next
    case False
    then have "readFuncIndex ?db (funcKey fn) = readFuncIndex db (funcKey fn)"
      by (simp add: readFuncIndex_def dbGet_dbSet)
    with Cons.IH [OF d, of ?db] False show ?thesis
      by (simp add: step x split: option.splits)
  qed
qed

subsection \<open>The first pass\<close>

lemma appendEntry_map_of:
  "map_of (appendEntry goroID e gs) k =
     (if k = goroID then Some \<lparr>Entries = (case map_of gs goroID of None \<Rightarrow> [] | Some s \<Rightarrow> Entries s) @ [e]\<rparr>
      else map_of gs k)"
  by (simp add: appendEntry_def update_conv')

lemma appendEntry_distinct:
  "distinct (map fst gs) \<Longrightarrow> distinct (map fst (appendEntry goroID e gs))"
  by (simp add: appendEntry_def distinct_update)

lemma addGoros_distinct:
  "distinct (map fst gs) \<Longrightarrow> distinct (map fst (addGoros ts gl gs))"
  by (induction ts gl gs rule: addGoros.induct) (auto simp: appendEntry_distinct)

lemma addGoros_map_of:
  assumes "distinct (map fst gl)"
  shows "map_of (addGoros ts gl gs) k =
     (case map_of gl k of
        None \<Rightarrow> map_of gs k
      | Some g \<Rightarrow>
          Some \<lparr>Entries = (case map_of gs k of None \<Rightarrow> [] | Some s \<Rightarrow> Entries s) @
                   [\<lparr>Timestamp = ts, State = state g, Stack = stack g, CreatedBy = createdBy g\<rparr>]\<rparr>)"
  using assms
proof (induction ts gl gs rule: addGoros.induct)
  case (1 ts gs)
  then show ?case by simp
next
  case (2 ts goroID g rest gs)
  from "2.prems" have d: "distinct (map fst rest)" and n: "goroID \<notin> fst ` set rest" by auto
  from n have none: "map_of rest goroID = None" by (simp add: map_of_eq_None_iff)
  show ?case
  proof (cases "k = goroID")
    case True
    with "2.IH" [OF d] none show ?thesis by (simp add: appendEntry_map_of)
  next
    case False
    with "2.IH" [OF d] show ?thesis by (simp add: appendEntry_map_of split: option.splits)
  qed
qed

lemma firstPass_stats:
  "firstPass seed rs (gs, t, c) = (gs', t', c') \<Longrightarrow>
   t' = t @ map (\<lambda>r. unixSeconds (timestamp r)) rs \<and> c' = c @ map (\<lambda>r. int (length (goros r))) rs"
proof (induction rs arbitrary: gs t c)
  case Nil
  then show ?case by simp
next
  case (Cons r rs)
  from Cons.prems have
    "firstPass seed rs (addGoros (unixSeconds (timestamp r)) (mapRange seed (goros r)) gs,
        t @ [unixSeconds (timestamp r)], c @ [int (length (goros r))]) = (gs', t', c')"
    by (simp add: Let_def)
  from Cons.IH [OF this] show ?case by simp
qed

lemma firstPass_distinct:
  "firstPass seed rs (gs, t, c) = (gs', t', c') \<Longrightarrow> distinct (map fst gs) \<Longrightarrow> distinct (map fst gs')"
proof (induction rs arbitrary: gs t c)
  case Nil
  then show ?case by simp
next
  case (Cons r rs)
  from Cons.prems(1) have
    "firstPass seed rs (addGoros (unixSeconds (timestamp r)) (mapRange seed (goros r)) gs,
        t @ [unixSeconds (timestamp r)], c @ [int (length (goros r))]) = (gs', t', c')"
    by (simp add: Let_def)
  from Cons.IH [OF this] Cons.prems(2) show ?case by (simp add: addGoros_distinct)
qed

lemma firstPass_map_of:
  assumes "firstPass seed rs (gs, t, c) = (gs', t', c')"
    and "\<forall>r\<in>set rs. distinct (map fst (goros r))"
  shows "map_of gs' k =
     (if entriesOf rs k = [] then map_of gs k
      else Some \<lparr>Entries = (case map_of gs k of None \<Rightarrow> [] | Some s \<Rightarrow> Entries s) @ entriesOf rs k\<rparr>)"
  using assms
proof (induction rs arbitrary: gs t c)
  case Nil
  then show ?case by (simp add: entriesOf_def)
next
  case (Cons r rs)
  let ?gs = "addGoros (unixSeconds (timestamp r)) (mapRange seed (goros r)) gs"
  from Cons.prems(1) have step:
    "firstPass seed rs (?gs, t @ [unixSeconds (timestamp r)], c @ [int (length (goros r))]) = (gs', t', c')"
    by (simp add: Let_def)
  from Cons.prems(2) have d: "distinct (map fst (goros r))" and ds: "\<forall>r\<in>set rs. distinct (map fst (goros r))"
    by simp_all
  have m: "map_of ?gs k =
     (case map_of (goros r) k of
        None \<Rightarrow> map_of gs k
      | Some g \<Rightarrow> Some \<lparr>Entries = (case map_of gs k of None \<Rightarrow> [] | Some s \<Rightarrow> Entries s) @ [entryOf r g]\<rparr>)"
    using addGoros_map_of [of "mapRange seed (goros r)" "unixSeconds (timestamp r)" gs k] d
    by (simp add: map_of_mapRange [OF d] entryOf_def split: option.splits)
  have e: "entriesOf (r # rs) k =
      (case map_of (goros r) k of None \<Rightarrow> [] | Some g \<Rightarrow> [entryOf r g]) @ entriesOf rs k"
    by (simp add: entriesOf_def)
  show ?case
    unfolding Cons.IH [OF step ds] m e
    by (cases "map_of (goros r) k") auto
qed

lemma length_entriesOf:
  "length (entriesOf rs k) = length (filter (\<lambda>r. map_of (goros r) k \<noteq> None) rs)"
  by (induction rs) (auto simp: entriesOf_def split: option.splits)

lemma unixSeconds_mono: "a \<le> b \<Longrightarrow> unixSeconds a \<le> unixSeconds b"
  by (simp add: unixSeconds_def zdiv_mono1)

lemma Timestamp_entriesOf:
  "e \<in> set (entriesOf rs k) \<Longrightarrow> \<exists>r\<in>set rs. Timestamp e = unixSeconds (timestamp r)"
  by (auto simp: entriesOf_def entryOf_def split: option.splits)

lemma sorted_entriesOf:
  "sorted (map timestamp rs) \<Longrightarrow> sorted (map Timestamp (entriesOf rs k))"
proof (induction rs)
  case Nil
  then show ?case by (simp add: entriesOf_def)
next
  case (Cons r rs)
  have e: "entriesOf (r # rs) k =
      (case map_of (goros r) k of None \<Rightarrow> [] | Some g \<Rightarrow> [entryOf r g]) @ entriesOf rs k"
    by (simp add: entriesOf_def)
  from Cons have s: "sorted (map Timestamp (entriesOf rs k))" by simp
  have "\<forall>e\<in>set (entriesOf rs k). unixSeconds (timestamp r) \<le> Timestamp e"
  proof
    fix e assume "e \<in> set (entriesOf rs k)"
    then obtain r' where "r' \<in> set rs" "Timestamp e = unixSeconds (timestamp r')"
      using Timestamp_entriesOf by blast
    with Cons.prems show "unixSeconds (timestamp r) \<le> Timestamp e"
      by (auto intro: unixSeconds_mono)
  qed
  with s show ?case
    unfolding e by (cases "map_of (goros r) k") (auto simp: entryOf_def)
qed

subsection \<open>The blocks of a dump\<close>

lemma parseBlocks_distinct:
  "distinct (map fst result) \<Longrightarrow> distinct (map fst (parseBlocks seed blocks result))"
  by (induction blocks arbitrary: result) (auto simp: distinct_update split: option.splits)

lemma parseGoroutines_distinct: "distinct (map fst (parseGoroutines seed data))"
  by (simp add: parseGoroutines_def parseBlocks_distinct)



subsection \<open>The steps of \<open>processHost\<close>\<close>

lemma parsedFiles_distinct:
  "r \<in> set (parsedFiles seed files) \<Longrightarrow> distinct (map fst (goros r))"
  by (auto simp: parsedFiles_def map_filter_def parseSnapshotFile_def parseGoroutines_distinct
      split: option.splits)

lemma processHost_steps:
  assumes "processHost seed db (Some files) host numWorkers = Inr (db', fs)"
  obtains goroSeries ts cs where
    "firstPass seed (sort_key timestamp (parsedFiles seed files)) ([], [], []) = (goroSeries, ts, cs)"
    "0 < numWorkers"
    "db' = mergeFuncs seed (mapRange seed (secondPass seed host (nat numWorkers) goroSeries))
             (db @ seriesWrites host (mapRange seed goroSeries)
                 @ childrenWrites host (mapRange seed (buildChildren (mapRange seed goroSeries) []))
                 @ [(statsKey host, StatsValue ts cs)])"
    "fs = map fst (secondPass seed host (nat numWorkers) goroSeries)"
proof -
  obtain goroSeries ts cs where fp:
    "firstPass seed (sort_key timestamp (parsedFiles seed files)) ([], [], []) = (goroSeries, ts, cs)"
    by (metis prod_cases3)
  from assms have pos: "0 < numWorkers"
    by (auto simp: processHost_def split: if_splits)
  from assms pos fp have
    "db' = mergeFuncs seed (mapRange seed (secondPass seed host (nat numWorkers) goroSeries))
             (db @ seriesWrites host (mapRange seed goroSeries)
                 @ childrenWrites host (mapRange seed (buildChildren (mapRange seed goroSeries) []))
                 @ [(statsKey host, StatsValue ts cs)])"
    and "fs = map fst (secondPass seed host (nat numWorkers) goroSeries)"
    by (simp_all add: processHost_def parsedFiles_def Let_def writeAllSeries_log writeChildren_log dbSet_def)
  with fp pos show ?thesis by (rule that)
qed

lemma goroSeries_of_files:
  assumes "firstPass seed (sort_key timestamp (parsedFiles seed files)) ([], [], []) = (goroSeries, ts, cs)"
  shows "distinct (map fst goroSeries)"
    and "map_of goroSeries k =
      (if entriesOf (sort_key timestamp (parsedFiles seed files)) k = [] then None
       else Some \<lparr>Entries = entriesOf (sort_key timestamp (parsedFiles seed files)) k\<rparr>)"
    and "ts = map (\<lambda>r. unixSeconds (timestamp r)) (sort_key timestamp (parsedFiles seed files))"
    and "cs = map (\<lambda>r. int (length (goros r))) (sort_key timestamp (parsedFiles seed files))"
proof -
  show "distinct (map fst goroSeries)" using firstPass_distinct [OF assms] by simp
  have "\<forall>r\<in>set (sort_key timestamp (parsedFiles seed files)). distinct (map fst (goros r))"
    using parsedFiles_distinct by simp
  from firstPass_map_of [OF assms this, of k] show "map_of goroSeries k =
      (if entriesOf (sort_key timestamp (parsedFiles seed files)) k = [] then None
       else Some \<lparr>Entries = entriesOf (sort_key timestamp (parsedFiles seed files)) k\<rparr>)"
    by simp
  from firstPass_stats [OF assms]
  show "ts = map (\<lambda>r. unixSeconds (timestamp r)) (sort_key timestamp (parsedFiles seed files))"
    and "cs = map (\<lambda>r. int (length (goros r))) (sort_key timestamp (parsedFiles seed files))"
    by simp_all
qed

text \<open>What a key holds after the host has been processed.\<close>

lemma fst_seriesWrites: "fst ` set (seriesWrites host xs) = seriesKey host ` fst ` set xs"
  by (force simp: seriesWrites_def)

lemma fst_childrenWrites: "fst ` set (childrenWrites host xs) = childrenKey host ` fst ` set xs"
  by (force simp: childrenWrites_def)

lemma distinct_seriesWrites:
  "distinct (map fst xs) \<Longrightarrow> distinct (map fst (seriesWrites host xs))"
  by (simp add: seriesWrites_def distinct_map comp_def case_prod_unfold inj_on_def)

lemma distinct_childrenWrites:
  "distinct (map fst xs) \<Longrightarrow> distinct (map fst (childrenWrites host xs))"
  by (simp add: childrenWrites_def distinct_map comp_def case_prod_unfold inj_on_def)

lemma dbGet_after_funcs:
  assumes "\<And>f. k \<noteq> funcKey f"
  shows "dbGet (mergeFuncs seed xs db) k = dbGet db k"
proof -
  obtain new where n: "mergeFuncs seed xs db = db @ new" "map fst new = map (funcKey \<circ> fst) xs"
    using mergeFuncs_log by blast
  from n(2) have "fst ` set new = (funcKey \<circ> fst) ` set xs"
    by (metis image_set)
  with assms have "k \<notin> fst ` set new" by auto
  with n(1) show ?thesis by (simp add: dbGet_append_other)
qed

lemma processHost_series:
  assumes "processHost seed db (Some files) host numWorkers = Inr (db', fs)"
    and "firstPass seed (sort_key timestamp (parsedFiles seed files)) ([], [], []) = (goroSeries, ts, cs)"
    and "map_of goroSeries k = Some series"
  shows "dbGet db' (seriesKey host k) = Some (SeriesValue series)"
proof -
  from assms(1) obtain goroSeries' ts' cs' where
    fp: "firstPass seed (sort_key timestamp (parsedFiles seed files)) ([], [], []) = (goroSeries', ts', cs')"
    and db': "db' = mergeFuncs seed (mapRange seed (secondPass seed host (nat numWorkers) goroSeries'))
             (db @ seriesWrites host (mapRange seed goroSeries')
                 @ childrenWrites host (mapRange seed (buildChildren (mapRange seed goroSeries') []))
                 @ [(statsKey host, StatsValue ts' cs')])"
    by (rule processHost_steps)
  from fp assms(2) have eq: "goroSeries' = goroSeries" "ts' = ts" "cs' = cs" by simp_all
  let ?S = "seriesWrites host (mapRange seed goroSeries)"
  let ?C = "childrenWrites host (mapRange seed (buildChildren (mapRange seed goroSeries) []))"
  have d: "distinct (map fst goroSeries)" using goroSeries_of_files(1) [OF assms(2)] .
  have "(k, series) \<in> set (mapRange seed goroSeries)" using assms(3) by (simp add: map_of_SomeD)
  then have "(seriesKey host k, SeriesValue series) \<in> set ?S" by (force simp: seriesWrites_def)
  moreover have "distinct (map fst ?S)" using d by (simp add: distinct_seriesWrites)
  ultimately have 1: "dbGet (db @ ?S) (seriesKey host k) = Some (SeriesValue series)"
    by (simp add: dbGet_append_distinct)
  have "seriesKey host k \<notin> fst ` set (?C @ [(statsKey host, StatsValue ts cs)])"
    by (auto simp: fst_childrenWrites)
  then have 2: "dbGet ((db @ ?S) @ ?C @ [(statsKey host, StatsValue ts cs)]) (seriesKey host k)
      = dbGet (db @ ?S) (seriesKey host k)"
    by (rule dbGet_append_other)
  show ?thesis
    unfolding db' eq using 1 2 by (simp add: dbGet_after_funcs)
qed

lemma zip_map_same: "zip (map f xs) (map g xs) = map (\<lambda>x. (f x, g x)) xs"
  by (induction xs) simp_all

lemma processHost_written:
  assumes "processHost seed db (Some files) host numWorkers = Inr (db', fs)"
    and "firstPass seed (sort_key timestamp (parsedFiles seed files)) ([], [], []) = (goroSeries, ts, cs)"
    and "(key, v) \<in> set db'" "(key, v) \<notin> set db"
  shows "(key, v) \<in> set (seriesWrites host goroSeries)
       \<or> (key, v) \<in> set (childrenWrites host (buildChildren (mapRange seed goroSeries) []))
       \<or> (key, v) = (statsKey host, StatsValue ts cs)
       \<or> (\<exists>f x. key = funcKey f \<and> v = FuncIndexValue x)"
proof -
  from assms(1) obtain goroSeries' ts' cs' where
    fp: "firstPass seed (sort_key timestamp (parsedFiles seed files)) ([], [], []) = (goroSeries', ts', cs')"
    and db': "db' = mergeFuncs seed (mapRange seed (secondPass seed host (nat numWorkers) goroSeries'))
             (db @ seriesWrites host (mapRange seed goroSeries')
                 @ childrenWrites host (mapRange seed (buildChildren (mapRange seed goroSeries') []))
                 @ [(statsKey host, StatsValue ts' cs')])"
    by (rule processHost_steps)
  from fp assms(2) have eq: "goroSeries' = goroSeries" "ts' = ts" "cs' = cs" by simp_all
  let ?xs = "mapRange seed (secondPass seed host (nat numWorkers) goroSeries)"
  let ?db = "db @ seriesWrites host (mapRange seed goroSeries)
                 @ childrenWrites host (mapRange seed (buildChildren (mapRange seed goroSeries) []))
                 @ [(statsKey host, StatsValue ts cs)]"
  have funcs: "\<And>xs db0 k w. (k, w) \<in> set (mergeFuncs seed xs db0) \<Longrightarrow>
      (k, w) \<in> set db0 \<or> (\<exists>f x. k = funcKey f \<and> w = FuncIndexValue x)"
  proof -
    fix xs db0 k w show "(k, w) \<in> set (mergeFuncs seed xs db0) \<Longrightarrow>
      (k, w) \<in> set db0 \<or> (\<exists>f x. k = funcKey f \<and> w = FuncIndexValue x)"
    proof (induction xs arbitrary: db0)
      case Nil
      then show ?case by simp
    next
      case (Cons x xs)
      obtain f gm where x: "x = (f, gm)" by (cases x)
      let ?w = "(funcKey f, FuncIndexValue \<lparr>Occurrences = Occurrences (readFuncIndex db0 (funcKey f)) @ map snd (mapRange seed gm)\<rparr>)"
      from Cons.prems have "(k, w) \<in> set (mergeFuncs seed xs (db0 @ [?w]))"
        by (simp add: x Let_def dbSet_def)
      from Cons.IH [OF this] show ?case by auto
    qed
  qed
  from assms(3) have "(key, v) \<in> set ?db \<or> (\<exists>f x. key = funcKey f \<and> v = FuncIndexValue x)"
    unfolding db' eq by (rule funcs)
  moreover have "set (seriesWrites host (mapRange seed goroSeries)) = set (seriesWrites host goroSeries)"
    by (simp add: seriesWrites_def)
  moreover have "set (childrenWrites host (mapRange seed (buildChildren (mapRange seed goroSeries) [])))
      = set (childrenWrites host (buildChildren (mapRange seed goroSeries) []))"
    by (simp add: childrenWrites_def)
  ultimately show ?thesis using assms(4) by auto
qed

text \<open>
  Claim C5 (the time series of a host). Every series written while a host is processed has
  its timestamps in non-decreasing order; and a goroutine that is in \<open>n > 0\<close> of the
  parsed snapshots of the host has, under its key, a series of exactly \<open>n\<close> entries.
\<close>

theorem processHost_series_sorted_and_counted:
  assumes "processHost seed db (Some files) host numWorkers = Inr (db', fs)"
  shows "(\<forall>key series. (key, SeriesValue series) \<in> set db' \<and> (key, SeriesValue series) \<notin> set db
            \<longrightarrow> sorted (map Timestamp (Entries series)))
       \<and> (\<forall>goroID. filter (\<lambda>r. map_of (goros r) goroID \<noteq> None) (parsedFiles seed files) \<noteq> []
            \<longrightarrow> (\<exists>series. dbGet db' (seriesKey host goroID) = Some (SeriesValue series)
                   \<and> length (Entries series)
                       = length (filter (\<lambda>r. map_of (goros r) goroID \<noteq> None) (parsedFiles seed files))
                   \<and> sorted (map Timestamp (Entries series))))"
proof -
  let ?rs = "sort_key timestamp (parsedFiles seed files)"
  obtain goroSeries ts cs where fp: "firstPass seed ?rs ([], [], []) = (goroSeries, ts, cs)"
    by (metis prod_cases3)
  note gs = goroSeries_of_files [OF fp]
  have sorted: "\<And>k. sorted (map Timestamp (entriesOf ?rs k))"
    by (rule sorted_entriesOf) simp
  have len: "\<And>k. length (entriesOf ?rs k)
      = length (filter (\<lambda>r. map_of (goros r) k \<noteq> None) (parsedFiles seed files))"
  proof -
    fix k
    have "mset (filter (\<lambda>r. map_of (goros r) k \<noteq> None) ?rs)
        = mset (filter (\<lambda>r. map_of (goros r) k \<noteq> None) (parsedFiles seed files))"
      by simp
    then have "length (filter (\<lambda>r. map_of (goros r) k \<noteq> None) ?rs)
        = length (filter (\<lambda>r. map_of (goros r) k \<noteq> None) (parsedFiles seed files))"
      by (metis size_mset)
    then show "length (entriesOf ?rs k)
      = length (filter (\<lambda>r. map_of (goros r) k \<noteq> None) (parsedFiles seed files))"
      by (simp add: length_entriesOf)
  qed
  have 1: "\<forall>key series. (key, SeriesValue series) \<in> set db' \<and> (key, SeriesValue series) \<notin> set db
            \<longrightarrow> sorted (map Timestamp (Entries series))"
  proof (intro allI impI, elim conjE)
    fix key series
    assume "(key, SeriesValue series) \<in> set db'" "(key, SeriesValue series) \<notin> set db"
    from processHost_written [OF assms fp this]
    have "(key, SeriesValue series) \<in> set (seriesWrites host goroSeries)"
      by (auto simp: childrenWrites_def)
    then obtain k where "(k, series) \<in> set goroSeries" by (auto simp: seriesWrites_def)
    with gs(1) have "map_of goroSeries k = Some series" by simp
    with gs(2) [of k] have "Entries series = entriesOf ?rs k" by (auto split: if_splits)
    with sorted show "sorted (map Timestamp (Entries series))" by simp
  qed
  have 2: "\<forall>goroID. filter (\<lambda>r. map_of (goros r) goroID \<noteq> None) (parsedFiles seed files) \<noteq> []
            \<longrightarrow> (\<exists>series. dbGet db' (seriesKey host goroID) = Some (SeriesValue series)
                   \<and> length (Entries series)
                       = length (filter (\<lambda>r. map_of (goros r) goroID \<noteq> None) (parsedFiles seed files))
                   \<and> sorted (map Timestamp (Entries series)))"
  proof (intro allI impI)
    fix k assume "filter (\<lambda>r. map_of (goros r) k \<noteq> None) (parsedFiles seed files) \<noteq> []"
    with len [of k] have "entriesOf ?rs k \<noteq> []" by auto
    with gs(2) [of k] have m: "map_of goroSeries k = Some \<lparr>Entries = entriesOf ?rs k\<rparr>" by simp
    from processHost_series [OF assms fp m] len [of k] sorted [of k]
    show "\<exists>series. dbGet db' (seriesKey host k) = Some (SeriesValue series)
                   \<and> length (Entries series)
                       = length (filter (\<lambda>r. map_of (goros r) k \<noteq> None) (parsedFiles seed files))
                   \<and> sorted (map Timestamp (Entries series))"
      by auto
  qed
  from 1 2 show ?thesis by (rule conjI)
qed

text \<open>
  Claim C8 (the snapshot counts of a host). The record written under \<open>s:host\<close> has two
  arrays of the same length, with one pair for each file that was parsed, a file being
  parsed when its name gives a time and its stream can be read; the times ascend, and the
  count of a pair is the number of keys of the map parsed from that file.
\<close>

theorem processHost_snapshot_counts:
  assumes "processHost seed db (Some files) host numWorkers = Inr (db', fs)"
  shows "\<exists>ts cs. dbGet db' (statsKey host) = Some (StatsValue ts cs)
       \<and> length ts = length cs
       \<and> length ts = length (filter (\<lambda>f. fileTime f \<noteq> None \<and> fileData f \<noteq> None) files)
       \<and> sorted ts
       \<and> mset (zip ts cs)
           = mset (map (\<lambda>r. (unixSeconds (timestamp r), int (card (dom (map_of (goros r))))))
                       (parsedFiles seed files))"
proof -
  let ?rs = "sort_key timestamp (parsedFiles seed files)"
  from assms obtain goroSeries ts cs where
    fp: "firstPass seed ?rs ([], [], []) = (goroSeries, ts, cs)"
    and db': "db' = mergeFuncs seed (mapRange seed (secondPass seed host (nat numWorkers) goroSeries))
             (db @ seriesWrites host (mapRange seed goroSeries)
                 @ childrenWrites host (mapRange seed (buildChildren (mapRange seed goroSeries) []))
                 @ [(statsKey host, StatsValue ts cs)])"
    by (rule processHost_steps)
  note gs = goroSeries_of_files [OF fp]
  have get: "dbGet db' (statsKey host) = Some (StatsValue ts cs)"
    unfolding db' by (simp add: dbGet_after_funcs) (simp add: dbGet_def)
  have size: "\<And>r. r \<in> set (parsedFiles seed files) \<Longrightarrow> length (goros r) = card (dom (map_of (goros r)))"
    using parsedFiles_distinct
    by (metis dom_map_of_conv_image_fst distinct_card length_map list.set_map)
  have len: "length (parsedFiles seed files)
      = length (filter (\<lambda>f. fileTime f \<noteq> None \<and> fileData f \<noteq> None) files)"
    unfolding parsedFiles_def
    by (induction files) (auto simp: map_filter_simps parseSnapshotFile_def split: option.splits)
  have sorted: "sorted ts"
    unfolding gs(3) using sorted_sort_key [of timestamp "parsedFiles seed files"]
    by (simp add: sorted_map [where f = "\<lambda>r. unixSeconds (timestamp r)"] sorted_wrt_iff_nth_less unixSeconds_mono)
  have "zip ts cs = map (\<lambda>r. (unixSeconds (timestamp r), int (length (goros r)))) ?rs"
    unfolding gs(3,4) by (rule zip_map_same)
  then have "mset (zip ts cs)
      = mset (map (\<lambda>r. (unixSeconds (timestamp r), int (length (goros r)))) (parsedFiles seed files))"
    by simp
  also have "map (\<lambda>r. (unixSeconds (timestamp r), int (length (goros r)))) (parsedFiles seed files)
      = map (\<lambda>r. (unixSeconds (timestamp r), int (card (dom (map_of (goros r)))))) (parsedFiles seed files)"
    using size by simp
  finally have pairs: "mset (zip ts cs)
      = mset (map (\<lambda>r. (unixSeconds (timestamp r), int (card (dom (map_of (goros r))))))
                  (parsedFiles seed files))" .
  from get len sorted pairs gs(3,4) show ?thesis by auto
qed

subsection \<open>The children index\<close>

lemma findParent_found:
  "findParent es = (p, fs) \<Longrightarrow> p \<noteq> 0 \<Longrightarrow>
   \<exists>e. find (\<lambda>e. CreatedBy e \<noteq> 0) es = Some e \<and> CreatedBy e = p \<and> fs = extractFirstTwoFuncs (Stack e)"
  by (induction es) (auto split: if_splits)

lemma childrenInv_mono:
  "childrenInv seen ci \<Longrightarrow> childrenInv (seen @ later) ci"
  by (fastforce simp: childrenInv_def)

lemma childrenInv_add:
  assumes inv: "childrenInv seen ci" and new: "goroID \<notin> fst ` set seen"
    and fp: "findParent (Entries series) = (p, fs)" and p: "p \<noteq> 0"
  shows "childrenInv (seen @ [(goroID, series)])
     (AList.update p ((case map_of ci p of None \<Rightarrow> [] | Some cs \<Rightarrow> cs) @
        [\<lparr>ID = goroID, Funcs = fs, ChildFirstSeen = a, ChildLastSeen = b\<rparr>]) ci)"
  unfolding childrenInv_def
proof (intro conjI allI impI)
  show "distinct (map fst (AList.update p ((case map_of ci p of None \<Rightarrow> [] | Some cs \<Rightarrow> cs) @
        [\<lparr>ID = goroID, Funcs = fs, ChildFirstSeen = a, ChildLastSeen = b\<rparr>]) ci))"
    using inv by (simp add: childrenInv_def distinct_update)
next
  fix q cs
  assume m: "map_of (AList.update p ((case map_of ci p of None \<Rightarrow> [] | Some cs \<Rightarrow> cs) @
        [\<lparr>ID = goroID, Funcs = fs, ChildFirstSeen = a, ChildLastSeen = b\<rparr>]) ci) q = Some cs"
  let ?old = "case map_of ci p of None \<Rightarrow> [] | Some cs \<Rightarrow> cs"
  let ?c = "\<lparr>ID = goroID, Funcs = fs, ChildFirstSeen = a, ChildLastSeen = b\<rparr>"
  have old: "distinct (map ID ?old) \<and>
        (\<forall>c\<in>set ?old. \<exists>series. (ID c, series) \<in> set seen \<and> p \<noteq> 0
            \<and> findParent (Entries series) = (p, Funcs c))"
    using inv by (cases "map_of ci p") (auto simp: childrenInv_def)
  then have ids: "ID ` set ?old \<subseteq> fst ` set seen" by force
  show "distinct (map ID cs)"
  proof (cases "q = p")
    case True
    with m have "cs = ?old @ [?c]" by (simp add: update_conv')
    with old ids new show ?thesis by auto
  next
    case False
    with m have "map_of ci q = Some cs" by (simp add: update_conv')
    with inv show ?thesis by (simp add: childrenInv_def)
  qed
  show "\<forall>c\<in>set cs. \<exists>series'. (ID c, series') \<in> set (seen @ [(goroID, series)]) \<and> q \<noteq> 0
            \<and> findParent (Entries series') = (q, Funcs c)"
  proof (cases "q = p")
    case True
    with m have "cs = ?old @ [?c]" by (simp add: update_conv')
    with old fp p True show ?thesis by auto
  next
    case False
    with m have "map_of ci q = Some cs" by (simp add: update_conv')
    with inv show ?thesis by (fastforce simp: childrenInv_def)
  qed
qed

lemma buildChildren_inv:
  assumes "distinct (map fst (seen @ todo))" "childrenInv seen ci"
  shows "childrenInv (seen @ todo) (buildChildren todo ci)"
  using assms
proof (induction todo arbitrary: seen ci)
  case Nil
  then show ?case by simp
next
  case (Cons x todo)
  obtain goroID series where x: "x = (goroID, series)" by (cases x)
  from Cons.prems(1) x have d: "distinct (map fst ((seen @ [(goroID, series)]) @ todo))"
    and new: "goroID \<notin> fst ` set seen" by auto
  obtain p fs where fp: "findParent (Entries series) = (p, fs)" by (cases "findParent (Entries series)")
  show ?case
  proof (cases "length (Entries series) = 0 \<or> p = 0")
    case True
    then have "buildChildren (x # todo) ci = buildChildren todo ci"
      using fp x by auto
    moreover have "childrenInv (seen @ [(goroID, series)]) ci"
      using Cons.prems(2) by (rule childrenInv_mono)
    ultimately show ?thesis using Cons.IH [OF d] x by simp
  next
    case False
    let ?ci = "AList.update p ((case map_of ci p of None \<Rightarrow> [] | Some cs \<Rightarrow> cs) @
        [\<lparr>ID = goroID, Funcs = fs, ChildFirstSeen = Timestamp (Entries series ! 0),
          ChildLastSeen = Timestamp (Entries series ! (length (Entries series) - 1))\<rparr>]) ci"
    from False have "buildChildren (x # todo) ci = buildChildren todo ?ci"
      using fp x by simp
    moreover have "childrenInv (seen @ [(goroID, series)]) ?ci"
      using Cons.prems(2) new fp False by (intro childrenInv_add) auto
    ultimately show ?thesis using Cons.IH [OF d] x by simp
  qed
qed

lemma processHost_children:
  assumes ph: "processHost seed db (Some files) host numWorkers = Inr (db', fs)"
    and w: "(key, ChildrenValue cs) \<in> set db'" "(key, ChildrenValue cs) \<notin> set db"
  shows "\<exists>p. key = childrenKey host p \<and> dbGet db' key = Some (ChildrenValue cs) \<and> distinct (map ID cs)
     \<and> (\<forall>c\<in>set cs. \<exists>series e. dbGet db' (seriesKey host (ID c)) = Some (SeriesValue series)
            \<and> find (\<lambda>e. CreatedBy e \<noteq> 0) (Entries series) = Some e
            \<and> CreatedBy e = p \<and> Funcs c = extractFirstTwoFuncs (Stack e))"
proof -
  let ?rs = "sort_key timestamp (parsedFiles seed files)"
  from ph obtain goroSeries ts ns where
    fp: "firstPass seed ?rs ([], [], []) = (goroSeries, ts, ns)"
    and db': "db' = mergeFuncs seed (mapRange seed (secondPass seed host (nat numWorkers) goroSeries))
             (db @ seriesWrites host (mapRange seed goroSeries)
                 @ childrenWrites host (mapRange seed (buildChildren (mapRange seed goroSeries) []))
                 @ [(statsKey host, StatsValue ts ns)])"
    by (rule processHost_steps)
  note gs = goroSeries_of_files [OF fp]
  let ?ci = "buildChildren (mapRange seed goroSeries) []"
  have "childrenInv ([] @ mapRange seed goroSeries) ?ci"
    by (rule buildChildren_inv) (simp_all add: gs(1) childrenInv_def)
  then have inv: "childrenInv goroSeries ?ci"
    by (simp add: childrenInv_def)
  from processHost_written [OF ph fp w]
  have "(key, ChildrenValue cs) \<in> set (childrenWrites host ?ci)"
    by (auto simp: seriesWrites_def)
  then obtain p where key: "key = childrenKey host p" and pc: "(p, cs) \<in> set ?ci"
    by (auto simp: childrenWrites_def)
  from inv pc have m: "map_of ?ci p = Some cs" by (simp add: childrenInv_def)
  let ?S = "seriesWrites host (mapRange seed goroSeries)"
  let ?C = "childrenWrites host (mapRange seed ?ci)"
  have "(key, ChildrenValue cs) \<in> set ?C" using key pc by (force simp: childrenWrites_def)
  moreover have "distinct (map fst ?C)"
    using inv by (simp add: distinct_childrenWrites childrenInv_def)
  ultimately have "dbGet ((db @ ?S) @ ?C) key = Some (ChildrenValue cs)"
    by (rule dbGet_append_distinct [rotated])
  moreover have "dbGet (((db @ ?S) @ ?C) @ [(statsKey host, StatsValue ts ns)]) key = dbGet ((db @ ?S) @ ?C) key"
    by (rule dbGet_append_other) (simp add: key)
  ultimately have get: "dbGet db' key = Some (ChildrenValue cs)"
    unfolding db' by (simp add: dbGet_after_funcs key)
  have kids: "\<forall>c\<in>set cs. \<exists>series e. dbGet db' (seriesKey host (ID c)) = Some (SeriesValue series)
            \<and> find (\<lambda>e. CreatedBy e \<noteq> 0) (Entries series) = Some e
            \<and> CreatedBy e = p \<and> Funcs c = extractFirstTwoFuncs (Stack e)"
  proof
    fix c assume "c \<in> set cs"
    with inv m obtain series where s: "(ID c, series) \<in> set goroSeries" "p \<noteq> 0"
      "findParent (Entries series) = (p, Funcs c)"
      unfolding childrenInv_def by blast
    from s(1) gs(1) have "map_of goroSeries (ID c) = Some series" by simp
    from processHost_series [OF ph fp this] findParent_found [OF s(3,2)]
    show "\<exists>series e. dbGet db' (seriesKey host (ID c)) = Some (SeriesValue series)
            \<and> find (\<lambda>e. CreatedBy e \<noteq> 0) (Entries series) = Some e
            \<and> CreatedBy e = p \<and> Funcs c = extractFirstTwoFuncs (Stack e)"
      by blast
  qed
  from key get inv m kids show ?thesis by (auto simp: childrenInv_def)
qed

text \<open>
  Claim C6 (children symmetry). Every children list written while a host is processed is
  under the key of a parent \<open>p\<close>, is what the store holds under that key afterwards,
  names every child once, and the series stored for each of its children has an entry
  whose parent is \<open>p\<close>.
\<close>

theorem processHost_children_symmetry:
  assumes "processHost seed db (Some files) host numWorkers = Inr (db', fs)"
    and "(key, ChildrenValue cs) \<in> set db'" "(key, ChildrenValue cs) \<notin> set db"
  shows "\<exists>p. key = childrenKey host p \<and> dbGet db' key = Some (ChildrenValue cs) \<and> distinct (map ID cs)
     \<and> (\<forall>c\<in>set cs. \<exists>series. dbGet db' (seriesKey host (ID c)) = Some (SeriesValue series)
            \<and> (\<exists>e\<in>set (Entries series). CreatedBy e = p))"
proof -
  from processHost_children [OF assms] obtain p where
    p: "key = childrenKey host p" "dbGet db' key = Some (ChildrenValue cs)" "distinct (map ID cs)"
    and kids: "\<forall>c\<in>set cs. \<exists>series e. dbGet db' (seriesKey host (ID c)) = Some (SeriesValue series)
            \<and> find (\<lambda>e. CreatedBy e \<noteq> 0) (Entries series) = Some e
            \<and> CreatedBy e = p \<and> Funcs c = extractFirstTwoFuncs (Stack e)"
    by blast
  have "\<forall>c\<in>set cs. \<exists>series. dbGet db' (seriesKey host (ID c)) = Some (SeriesValue series)
            \<and> (\<exists>e\<in>set (Entries series). CreatedBy e = p)"
  proof
    fix c assume "c \<in> set cs"
    with kids obtain series e where
      "dbGet db' (seriesKey host (ID c)) = Some (SeriesValue series)"
      "find (\<lambda>e. CreatedBy e \<noteq> 0) (Entries series) = Some e" "CreatedBy e = p"
      by blast
    moreover from this(2) have "e \<in> set (Entries series)"
      by (auto simp: find_Some_iff)
    ultimately show "\<exists>series. dbGet db' (seriesKey host (ID c)) = Some (SeriesValue series)
            \<and> (\<exists>e\<in>set (Entries series). CreatedBy e = p)"
      by blast
  qed
  with p show ?thesis by blast
qed





subsection \<open>The order of the writes of a rebuild\<close>

lemma isDataKey_keys [simp]:
  "isDataKey (seriesKey h i)" "isDataKey (childrenKey h i)" "isDataKey (statsKey h)" "isDataKey (funcKey f)"
  by (simp_all add: isDataKey_def seriesKey_def childrenKey_def statsKey_def funcKey_def)

lemma processHost_log:
  assumes "processHost seed db dir host numWorkers = Inr (db', fs)"
  shows "\<exists>new. db' = db @ new \<and> (\<forall>key\<in>fst ` set new. isDataKey key)"
proof (cases dir)
  case None
  have "processHost seed db None host numWorkers = Inr (db, [])"
    by (simp only: processHost_def option.case)
  with assms None have 1: "db' = db @ []" by simp
  have 2: "\<forall>key\<in>fst ` set ([] :: store). isDataKey key" by simp
  show ?thesis
    by (rule exI [of _ "[]"]) (rule conjI [OF 1 2])
next
  case (Some files)
  with assms have ph: "processHost seed db (Some files) host numWorkers = Inr (db', fs)" by simp
  then obtain goroSeries ts cs where
    db': "db' = mergeFuncs seed (mapRange seed (secondPass seed host (nat numWorkers) goroSeries))
             (db @ seriesWrites host (mapRange seed goroSeries)
                 @ childrenWrites host (mapRange seed (buildChildren (mapRange seed goroSeries) []))
                 @ [(statsKey host, StatsValue ts cs)])"
    by (rule processHost_steps)
  define mid where "mid = seriesWrites host (mapRange seed goroSeries)
                 @ childrenWrites host (mapRange seed (buildChildren (mapRange seed goroSeries) []))
                 @ [(statsKey host, StatsValue ts cs)]"
  define xs where "xs = mapRange seed (secondPass seed host (nat numWorkers) goroSeries)"
  obtain new where new: "mergeFuncs seed xs (db @ mid) = (db @ mid) @ new"
    "map fst new = map (funcKey \<circ> fst) xs"
    using mergeFuncs_log by blast
  from new(2) have "fst ` set new = (funcKey \<circ> fst) ` set xs"
    by (metis image_set)
  then have 1: "\<forall>key\<in>fst ` set new. isDataKey key" by simp
  have "fst ` set mid = seriesKey host ` fst ` set goroSeries
      \<union> childrenKey host ` fst ` set (buildChildren (mapRange seed goroSeries) [])
      \<union> {statsKey host}"
    unfolding mid_def by (simp add: fst_seriesWrites fst_childrenWrites image_Un)
  then have 2: "\<forall>key\<in>fst ` set mid. isDataKey key" by auto
  from 1 2 have 3: "\<forall>key\<in>fst ` set (mid @ new). isDataKey key"
    by (simp add: image_Un ball_Un)
  have 4: "db' = db @ (mid @ new)"
    unfolding db' using new(1) by (simp add: mid_def xs_def)
  show ?thesis
    by (rule exI [of _ "mid @ new"]) (rule conjI [OF 4 3])
qed

lemma hostLoop_log:
  assumes "hostLoop seed numWorkers hosts (db, allFuncs) = Inr (db', allFuncs')"
  shows "\<exists>new. db' = db @ new \<and> (\<forall>key\<in>fst ` set new. isDataKey key)"
  using assms
proof (induction hosts arbitrary: db allFuncs)
  case Nil
  then have 1: "db' = db @ []" by simp
  have 2: "\<forall>key\<in>fst ` set ([] :: store). isDataKey key" by simp
  show ?case
    by (rule exI [of _ "[]"]) (rule conjI [OF 1 2])
next
  case (Cons h hosts)
  obtain db1 fs where
    ph: "processHost seed db (Dir h) (Name h) numWorkers = Inr (db1, fs)"
    and rest: "hostLoop seed numWorkers hosts (db1, fold List.insert fs allFuncs) = Inr (db', allFuncs')"
  proof (cases "processHost seed db (Dir h) (Name h) numWorkers")
    case (Inl e)
    with Cons.prems show ?thesis by simp
  next
    case (Inr p)
    obtain db1 fs where p: "p = (db1, fs)" by (cases p)
    with Inr Cons.prems that show ?thesis by simp
  qed
  from processHost_log [OF ph] obtain n1 where n1: "db1 = db @ n1" "\<forall>key\<in>fst ` set n1. isDataKey key"
    by (elim exE conjE)
  from Cons.IH [OF rest] obtain n2 where n2: "db' = db1 @ n2" "\<forall>key\<in>fst ` set n2. isDataKey key"
    by (elim exE conjE)
  from n1(1) n2(1) have 1: "db' = db @ (n1 @ n2)" by simp
  from n1(2) n2(2) have 2: "\<forall>key\<in>fst ` set (n1 @ n2). isDataKey key"
    by (simp add: image_Un ball_Un)
  show ?case
    by (rule exI [of _ "n1 @ n2"]) (rule conjI [OF 1 2])
qed

text \<open>
  Claim C3 (metadata and data), as amended. The rebuild writes the host list first, then
  the records of the hosts, then the list of function names: every write of a data record
  comes after the write of \<open>m:hosts\<close> and before the write of \<open>m:funcs\<close>, which is the
  last write.
\<close>

theorem runIndex_write_order:
  assumes "runIndex seed inputDir numWorkers = Inr db"
  shows "\<exists>hosts funcList dataWrites.
     db = (''m:hosts'', StringsValue hosts) # dataWrites @ [(''m:funcs'', StringsValue funcList)]
     \<and> (\<forall>key\<in>fst ` set dataWrites. isDataKey key)"
proof -
  obtain hosts where h: "findHosts inputDir = Some hosts"
    using assms by (cases "findHosts inputDir") (simp_all add: runIndex_def)
  define db0 where "db0 = dbSet [] ''m:hosts'' (StringsValue (map Name hosts))"
  obtain db1 allFuncs where
    loop: "hostLoop seed numWorkers hosts (db0, []) = Inr (db1, allFuncs)"
    and db: "db = dbSet db1 ''m:funcs'' (StringsValue (sort allFuncs))"
  proof (cases "hostLoop seed numWorkers hosts (db0, [])")
    case (Inl e)
    with assms h show ?thesis by (simp add: runIndex_def db0_def)
  next
    case (Inr p)
    obtain db1 allFuncs where p: "p = (db1, allFuncs)" by (cases p)
    with Inr assms h that show ?thesis by (simp add: runIndex_def db0_def)
  qed
  from hostLoop_log [OF loop] obtain new where
    new: "db1 = db0 @ new" "\<forall>key\<in>fst ` set new. isDataKey key"
    by (elim exE conjE)
  from db new(1) have 1:
    "db = (''m:hosts'', StringsValue (map Name hosts)) # new @ [(''m:funcs'', StringsValue (sort allFuncs))]"
    by (simp add: dbSet_def db0_def)
  show ?thesis
    by (rule exI [of _ "map Name hosts"], rule exI [of _ "sort allFuncs"], rule exI [of _ new])
       (rule conjI [OF 1 new(2)])
qed

lemma orphanCorpus_run:
  "runIndex [2, 5] orphanCorpus 2 = Inr
     [(''m:hosts'', StringsValue [''h'']),
      (''g:h:22'', SeriesValue \<lparr>Entries =
          [\<lparr>Timestamp = 10, State = ''select'', Stack = ''main.worker()\<newline>created by main.start'', CreatedBy = 7\<rparr>]\<rparr>),
      (''c:h:7'', ChildrenValue [\<lparr>ID = 22, Funcs = ''main.worker'', ChildFirstSeen = 10, ChildLastSeen = 10\<rparr>]),
      (''s:h'', StatsValue [10] [1]),
      (''f:main.worker'', FuncIndexValue \<lparr>Occurrences =
          [\<lparr>Host = ''h'', GoroutineID = 22, FirstSeen = 10, LastSeen = 10\<rparr>]\<rparr>),
      (''m:funcs'', StringsValue [''main.worker''])]"
  by code_simp

text \<open>
  In this rebuild the first write is the host list, a metadata record, and a data record
  is written after it.
\<close>

theorem runIndex_write_order_counterexample:
  "map fst (runStore (runIndex [2, 5] orphanCorpus 2))
     = [''m:hosts'', ''g:h:22'', ''c:h:7'', ''s:h'', ''f:main.worker'', ''m:funcs'']"
  by (simp only: orphanCorpus_run runStore_def sum.case list.map fst_conv)

theorem runIndex_write_order_witness:
  "runIndex [2, 5] orphanCorpus 2 = Inr (runStore (runIndex [2, 5] orphanCorpus 2))
   \<and> (\<exists>hosts funcList dataWrites.
        runStore (runIndex [2, 5] orphanCorpus 2)
          = (''m:hosts'', StringsValue hosts) # dataWrites @ [(''m:funcs'', StringsValue funcList)]
        \<and> (\<forall>key\<in>fst ` set dataWrites. isDataKey key))"
proof -
  have r: "runIndex [2, 5] orphanCorpus 2 = Inr (runStore (runIndex [2, 5] orphanCorpus 2))"
    by (simp only: orphanCorpus_run runStore_def sum.case)
  from runIndex_write_order [OF r] r show ?thesis by blast
qed

text \<open>
  Claim C9 (a parent that is never observed). In the rebuild of \<open>orphanCorpus\<close> the only
  goroutine is 22 and its parent is 7: the children list of 7 is written under
  \<open>c:h:7\<close>, and no series is written under \<open>g:h:7\<close>.
\<close>

theorem runIndex_unobserved_parent:
  "dbGet (runStore (runIndex [2, 5] orphanCorpus 2)) (childrenKey ''h'' 7)
     = Some (ChildrenValue [\<lparr>ID = 22, Funcs = ''main.worker'', ChildFirstSeen = 10, ChildLastSeen = 10\<rparr>])
   \<and> childrenKey ''h'' 7 = ''c:h:7''
   \<and> seriesKey ''h'' 7 = ''g:h:7''
   \<and> seriesKey ''h'' 7 \<notin> set (map fst (runStore (runIndex [2, 5] orphanCorpus 2)))
   \<and> map fst (parseGoroutines [2, 5] ''goroutine 22 [select]:\<newline>main.worker()\<newline>created by main.start in goroutine 7\<newline>'') = [22]"
proof -
  have "map fst (parseGoroutines [2, 5] ''goroutine 22 [select]:\<newline>main.worker()\<newline>created by main.start in goroutine 7\<newline>'') = [22]"
    by code_simp
  moreover have "childrenKey ''h'' 7 = ''c:h:7''" "seriesKey ''h'' 7 = ''g:h:7''"
    by code_simp+
  ultimately show ?thesis
    unfolding orphanCorpus_run runStore_def sum.case
    by (simp add: dbGet_def)
qed

subsection \<open>The second pass\<close>

lemma occGood_Nil [simp]: "occGood F []" "occKeys [] = {}"
  by (simp_all add: occGood_def occKeys_def)

lemma keys_update:
  "fst ` set (AList.update k v al) = insert k (fst ` set al)"
proof -
  have "set (map fst (AList.update k v al)) = insert k (set (map fst al))"
    by (auto simp: update_keys)
  then show ?thesis by (simp only: set_map)
qed

lemma set_update_distinct:
  assumes "distinct (map fst al)" "(a, b) \<in> set (AList.update k v al)"
  shows "(a = k \<and> b = v) \<or> (a, b) \<in> set al"
proof -
  have "distinct (map fst (AList.update k v al))" using assms(1) by (simp add: distinct_update)
  with assms(2) have "map_of (AList.update k v al) a = Some b" by simp
  then have "((map_of al)(k \<mapsto> v)) a = Some b" by (simp add: update_conv')
  then show ?thesis by (auto split: if_splits dest: map_of_SomeD)
qed

lemma putOcc_good:
  assumes "occGood F m"
  shows "occGood F (putOcc fn goroID (F goroID) m)"
proof -
  have d: "distinct (map fst (putOcc fn goroID (F goroID) m))"
    using assms by (simp add: putOcc_def occGood_def distinct_update)
  have r: "distinct (map fst gm) \<and> (\<forall>(g, occ)\<in>set gm. occ = F g)"
    if m: "map_of (putOcc fn goroID (F goroID) m) f = Some gm" for f gm
  proof -
  let ?old = "case map_of m fn of None \<Rightarrow> [] | Some goroMap \<Rightarrow> goroMap"
  have old: "distinct (map fst ?old) \<and> (\<forall>(g, occ)\<in>set ?old. occ = F g)"
    using assms by (cases "map_of m fn") (auto simp: occGood_def)
  show "distinct (map fst gm) \<and> (\<forall>(g, occ)\<in>set gm. occ = F g)"
  proof (cases "f = fn")
    case True
    with m have gm: "gm = AList.update goroID (F goroID) ?old"
      by (simp add: putOcc_def update_conv')
    have "\<forall>(g, occ)\<in>set (AList.update goroID (F goroID) ?old). occ = F g"
    proof clarify
      fix g occ assume "(g, occ) \<in> set (AList.update goroID (F goroID) ?old)"
      from set_update_distinct [OF conjunct1 [OF old] this]
      have "(g = goroID \<and> occ = F goroID) \<or> (g, occ) \<in> set ?old" .
      with old show "occ = F g" by auto
    qed
    with old gm show ?thesis by (simp add: distinct_update)
  next
    case False
    with m have "map_of m f = Some gm" by (simp add: putOcc_def update_conv')
    with assms show ?thesis unfolding occGood_def by blast
  qed
  qed
  show ?thesis unfolding occGood_def using d r by blast
qed

lemma putOcc_keys:
  "occKeys (putOcc fn goroID occ m) = insert (fn, goroID) (occKeys m)"
proof -
  let ?old = "case map_of m fn of None \<Rightarrow> [] | Some goroMap \<Rightarrow> goroMap"
  have 1: "\<And>f. map_of (putOcc fn goroID occ m) f =
      (if f = fn then Some (AList.update goroID occ ?old) else map_of m f)"
    by (simp add: putOcc_def update_conv')
  have 2: "fst ` set (AList.update goroID occ ?old) = insert goroID (fst ` set ?old)"
    by (rule keys_update)
  have 3: "fst ` set ?old = {g. (fn, g) \<in> occKeys m}"
    by (cases "map_of m fn") (auto simp: occKeys_def)
  show ?thesis
  proof (rule set_eqI)
    fix x :: "string \<times> int"
    obtain f g where x: "x = (f, g)" by (cases x)
    have "(f, g) \<in> occKeys (putOcc fn goroID occ m) \<longleftrightarrow> (f, g) \<in> insert (fn, goroID) (occKeys m)"
    proof (cases "f = fn")
      case True
      have "(fn, g) \<in> occKeys (putOcc fn goroID occ m)
          \<longleftrightarrow> g \<in> fst ` set (AList.update goroID occ ?old)"
        unfolding occKeys_def by (simp only: 1 mem_Collect_eq prod.case if_True option.inject simp_thms ex_simps)
      also have "\<dots> \<longleftrightarrow> g = goroID \<or> g \<in> fst ` set ?old" by (simp only: 2 insert_iff)
      also have "\<dots> \<longleftrightarrow> g = goroID \<or> (fn, g) \<in> occKeys m" by (simp only: 3 mem_Collect_eq)
      finally show ?thesis using True by simp
    next
      case False
      then show ?thesis unfolding occKeys_def by (simp only: 1 mem_Collect_eq prod.case if_False insert_iff prod.inject simp_thms)
    qed
    then show "x \<in> occKeys (putOcc fn goroID occ m) \<longleftrightarrow> x \<in> insert (fn, goroID) (occKeys m)"
      by (simp only: x)
  qed
qed

lemma fold_putOcc:
  assumes "occGood F m"
  shows "occGood F (fold (\<lambda>fn. putOcc fn goroID (F goroID)) fns m)
     \<and> occKeys (fold (\<lambda>fn. putOcc fn goroID (F goroID)) fns m) = occKeys m \<union> (\<lambda>fn. (fn, goroID)) ` set fns"
  using assms
proof (induction fns arbitrary: m)
  case Nil
  then show ?case by simp
next
  case (Cons fn fns)
  from Cons.IH [OF putOcc_good [OF Cons.prems, of fn goroID]]
  show ?case by (auto simp: putOcc_keys)
qed

lemma set_seriesFuncs:
  "set (seriesFuncs seed series) =
     set (concat (map (\<lambda>entry. extractFuncsFromStack (Stack entry)) (Entries series)))"
  by (simp add: seriesFuncs_def)

lemma workerLoop_inv:
  assumes "occGood (occOf host goroSeries) m"
  shows "occGood (occOf host goroSeries) (workerLoop seed host goroSeries ids m)
     \<and> occKeys (workerLoop seed host goroSeries ids m)
         = occKeys m \<union> {(fn, goroID). goroID \<in> set ids \<and> mentions goroSeries fn goroID}"
  using assms
proof (induction ids arbitrary: m)
  case Nil
  then show ?case by simp
next
  case (Cons goroID ids)
  show ?case
  proof (cases "map_of goroSeries goroID")
    case None
    then have "\<And>fn. \<not> mentions goroSeries fn goroID" by (simp add: mentions_def)
    with Cons.IH [OF Cons.prems] None show ?thesis by auto
  next
    case (Some series)
    show ?thesis
    proof (cases "Entries series = []")
      case True
      with Some have "\<And>fn. \<not> mentions goroSeries fn goroID" by (simp add: mentions_def)
      with Cons.IH [OF Cons.prems] Some True show ?thesis by auto
    next
      case False
      let ?occ = "occOf host goroSeries goroID"
      let ?m = "fold (\<lambda>fn. putOcc fn goroID ?occ) (seriesFuncs seed series) m"
      have occ: "?occ = \<lparr>Host = host, GoroutineID = goroID,
                        FirstSeen = Timestamp (Entries series ! 0),
                        LastSeen = Timestamp (Entries series ! (length (Entries series) - 1))\<rparr>"
        by (simp add: occOf_def Some)
      have step: "workerLoop seed host goroSeries (goroID # ids) m = workerLoop seed host goroSeries ids ?m"
        using Some False by (simp add: occ Let_def)
      from fold_putOcc [OF Cons.prems, of goroID "seriesFuncs seed series"]
      have g: "occGood (occOf host goroSeries) ?m"
        and k: "occKeys ?m = occKeys m \<union> (\<lambda>fn. (fn, goroID)) ` set (seriesFuncs seed series)"
        by simp_all
      have "(\<lambda>fn. (fn, goroID)) ` set (seriesFuncs seed series) = {(fn, g). g = goroID \<and> mentions goroSeries fn g}"
        using Some False by (fastforce simp: mentions_def set_seriesFuncs)
      with k have k': "occKeys ?m = occKeys m \<union> {(fn, g). g = goroID \<and> mentions goroSeries fn g}" by simp
      from Cons.IH [OF g] show ?thesis
        unfolding step k' by auto
    qed
  qed
qed

lemma set_workerResults:
  assumes "occGood F m"
  shows "set (concat (map (\<lambda>(fn, goroMap). map (\<lambda>(goroID, occ). (fn, goroID, occ)) (mapRange seed goroMap))
                 (mapRange seed m)))
     = {(fn, goroID, occ). (fn, goroID) \<in> occKeys m \<and> occ = F goroID}"
proof -
  have d: "distinct (map fst m)" using assms by (simp add: occGood_def)
  have "set (concat (map (\<lambda>(fn, goroMap). map (\<lambda>(goroID, occ). (fn, goroID, occ)) (mapRange seed goroMap))
                 (mapRange seed m)))
      = {(fn, goroID, occ). \<exists>goroMap. (fn, goroMap) \<in> set m \<and> (goroID, occ) \<in> set goroMap}"
    by force
  also have "\<dots> = {(fn, goroID, occ). (fn, goroID) \<in> occKeys m \<and> occ = F goroID}"
  proof (intro set_eqI iffI; clarify)
    fix fn goroID occ goroMap
    assume a: "(fn, goroMap) \<in> set m" "(goroID, occ) \<in> set goroMap"
    with d have m: "map_of m fn = Some goroMap" by simp
    with assms a(2) have "occ = F goroID" unfolding occGood_def by blast
    moreover from m a(2) have "(fn, goroID) \<in> occKeys m" by (force simp: occKeys_def)
    ultimately show "(fn, goroID) \<in> occKeys m \<and> occ = F goroID" by simp
  next
    fix fn goroID
    assume "(fn, goroID) \<in> occKeys m"
    then obtain goroMap occ where m: "map_of m fn = Some goroMap" and g: "(goroID, occ) \<in> set goroMap"
      by (auto simp: occKeys_def)
    with assms have "occ = F goroID" unfolding occGood_def by blast
    with m g show "\<exists>goroMap. (fn, goroMap) \<in> set m \<and> (goroID, F goroID) \<in> set goroMap"
      by (auto dest: map_of_SomeD)
  qed
  finally show ?thesis .
qed

lemma merge_results:
  assumes "occGood F m" "\<forall>(fn, goroID, occ)\<in>set results. occ = F goroID"
  shows "occGood F (fold (\<lambda>(fn, goroID, occ). putOcc fn goroID occ) results m)
     \<and> occKeys (fold (\<lambda>(fn, goroID, occ). putOcc fn goroID occ) results m)
         = occKeys m \<union> (\<lambda>(fn, goroID, occ). (fn, goroID)) ` set results"
  using assms
proof (induction results arbitrary: m)
  case Nil
  then show ?case by simp
next
  case (Cons r results)
  obtain fn goroID occ where r: "r = (fn, goroID, occ)" by (cases r)
  with Cons.prems(2) have occ: "occ = F goroID" and rest: "\<forall>(fn, goroID, occ)\<in>set results. occ = F goroID"
    by simp_all
  from Cons.IH [OF putOcc_good [OF Cons.prems(1), of fn goroID] rest]
  show ?case by (auto simp: r occ putOcc_keys)
qed

lemma concat_chunkLoop:
  "0 < chunkSize \<Longrightarrow> concat (chunkLoop k i chunkSize ids) = take (k * chunkSize) (drop (i * chunkSize) ids)"
proof (induction k arbitrary: i)
  case 0
  then show ?case by simp
next
  case (Suc k)
  show ?case
  proof (cases "i * chunkSize \<ge> length ids")
    case True
    then show ?thesis by simp
  next
    case False
    let ?xs = "drop (i * chunkSize) ids"
    have first: "take ((if i * chunkSize + chunkSize > length ids then length ids else i * chunkSize + chunkSize)
            - i * chunkSize) ?xs = take chunkSize ?xs"
      using False by auto
    have rest: "concat (chunkLoop k (Suc i) chunkSize ids) = take (k * chunkSize) (drop chunkSize ?xs)"
      using Suc.IH [OF Suc.prems, of "Suc i"] by (simp add: add.commute)
    have "concat (chunkLoop (Suc k) i chunkSize ids) = take chunkSize ?xs @ take (k * chunkSize) (drop chunkSize ?xs)"
      using False first rest by (simp add: Let_def)
    then show ?thesis by (simp add: take_add)
  qed
qed

lemma set_chunkLoop:
  assumes "0 < numWorkers"
  shows "\<Union> (set ` set (chunkLoop numWorkers 0 ((length ids + numWorkers - 1) div numWorkers) ids)) = set ids"
proof (cases "(length ids + numWorkers - 1) div numWorkers = 0")
  case True
  then have "length ids + numWorkers - 1 < numWorkers" using assms by (simp add: div_eq_0_iff)
  then have "length ids = 0" using assms by linarith
  then have "ids = []" by simp
  then show ?thesis by (cases numWorkers) simp_all
next
  case False
  let ?cs = "(length ids + numWorkers - 1) div numWorkers"
  have "length ids \<le> numWorkers * ?cs"
  proof -
    have "length ids + numWorkers - 1 = numWorkers * ?cs + (length ids + numWorkers - 1) mod numWorkers"
      by simp
    moreover have "(length ids + numWorkers - 1) mod numWorkers < numWorkers" using assms by simp
    ultimately show ?thesis by linarith
  qed
  then have "take (numWorkers * ?cs) ids = ids" by simp
  with concat_chunkLoop [of ?cs numWorkers 0 ids] False
  have "concat (chunkLoop numWorkers 0 ?cs ids) = ids" by simp
  then have "set (concat (chunkLoop numWorkers 0 ?cs ids)) = set ids" by simp
  then show ?thesis by simp
qed

lemma set_workerResults_ids:
  "set (workerResults seed host goroSeries ids)
     = {(fn, goroID, occ). goroID \<in> set ids \<and> mentions goroSeries fn goroID \<and> occ = occOf host goroSeries goroID}"
proof -
  from workerLoop_inv [of host goroSeries "[]" seed ids]
  have g: "occGood (occOf host goroSeries) (workerLoop seed host goroSeries ids [])"
    and k: "occKeys (workerLoop seed host goroSeries ids [])
         = {(fn, goroID). goroID \<in> set ids \<and> mentions goroSeries fn goroID}"
    by simp_all
  show ?thesis
    unfolding workerResults_def set_workerResults [OF g] k by auto
qed

lemma merge_chunks:
  assumes "occGood (occOf host goroSeries) m"
  shows "occGood (occOf host goroSeries)
       (fold (\<lambda>results funcOccurrences. fold (\<lambda>(fn, goroID, occ). putOcc fn goroID occ) results funcOccurrences)
          (map (workerResults seed host goroSeries) chunks) m)
     \<and> occKeys
       (fold (\<lambda>results funcOccurrences. fold (\<lambda>(fn, goroID, occ). putOcc fn goroID occ) results funcOccurrences)
          (map (workerResults seed host goroSeries) chunks) m)
       = occKeys m \<union> {(fn, goroID). goroID \<in> \<Union> (set ` set chunks) \<and> mentions goroSeries fn goroID}"
  using assms
proof (induction chunks arbitrary: m)
  case Nil
  then show ?case by simp
next
  case (Cons ids chunks)
  let ?m = "fold (\<lambda>(fn, goroID, occ). putOcc fn goroID occ) (workerResults seed host goroSeries ids) m"
  have r: "\<forall>(fn, goroID, occ)\<in>set (workerResults seed host goroSeries ids). occ = occOf host goroSeries goroID"
    unfolding set_workerResults_ids by auto
  from merge_results [OF Cons.prems r]
  have g: "occGood (occOf host goroSeries) ?m"
    and k: "occKeys ?m = occKeys m \<union> (\<lambda>(fn, goroID, occ). (fn, goroID)) ` set (workerResults seed host goroSeries ids)"
    by simp_all
  have "(\<lambda>(fn, goroID, occ). (fn, goroID)) ` set (workerResults seed host goroSeries ids)
      = {(fn, goroID). goroID \<in> set ids \<and> mentions goroSeries fn goroID}"
    unfolding set_workerResults_ids by force
  with k have k': "occKeys ?m = occKeys m \<union> {(fn, goroID). goroID \<in> set ids \<and> mentions goroSeries fn goroID}"
    by simp
  from Cons.IH [OF g] show ?case
    unfolding list.map fold_Cons comp_apply k' by auto
qed

lemma mentions_key: "mentions goroSeries fn goroID \<Longrightarrow> goroID \<in> fst ` set goroSeries"
  by (auto simp: mentions_def dest!: map_of_SomeD intro: rev_image_eqI)

lemma secondPass_inv:
  assumes "0 < numWorkers"
  shows "occGood (occOf host goroSeries) (secondPass seed host numWorkers goroSeries)"
    and "occKeys (secondPass seed host numWorkers goroSeries) = {(fn, goroID). mentions goroSeries fn goroID}"
proof -
  let ?ids = "map fst (mapRange seed goroSeries)"
  let ?chunks = "chunkLoop numWorkers 0 ((length ?ids + numWorkers - 1) div numWorkers) ?ids"
  have sp: "secondPass seed host numWorkers goroSeries =
      fold (\<lambda>results funcOccurrences. fold (\<lambda>(fn, goroID, occ). putOcc fn goroID occ) results funcOccurrences)
          (map (workerResults seed host goroSeries) ?chunks) []"
    by (simp add: secondPass_def Let_def)
  have ids: "\<Union> (set ` set ?chunks) = fst ` set goroSeries"
    using set_chunkLoop [OF assms, of ?ids] by simp
  from merge_chunks [of host goroSeries "[]" seed ?chunks]
  show "occGood (occOf host goroSeries) (secondPass seed host numWorkers goroSeries)"
    unfolding sp by simp
  from merge_chunks [of host goroSeries "[]" seed ?chunks]
  have "occKeys (secondPass seed host numWorkers goroSeries)
      = {(fn, goroID). goroID \<in> fst ` set goroSeries \<and> mentions goroSeries fn goroID}"
    unfolding sp ids by simp
  then show "occKeys (secondPass seed host numWorkers goroSeries) = {(fn, goroID). mentions goroSeries fn goroID}"
    using mentions_key by fastforce
qed

lemma GoroutineID_occOf [simp]: "GoroutineID (occOf host goroSeries goroID) = goroID"
  by (simp add: occOf_def split: option.splits)

lemma Host_occOf [simp]: "Host (occOf host goroSeries goroID) = host"
  by (simp add: occOf_def split: option.splits)

lemma occGood_values:
  assumes "occGood F m" "map_of m fn = Some goroMap"
  shows "map snd goroMap = map F (map fst goroMap)" "distinct (map fst goroMap)"
proof -
  from assms have "\<forall>(goroID, occ)\<in>set goroMap. occ = F goroID" and d: "distinct (map fst goroMap)"
    unfolding occGood_def by blast+
  then show "map snd goroMap = map F (map fst goroMap)" by (induction goroMap) auto
  from d show "distinct (map fst goroMap)" .
qed

text \<open>
  Claim C7 (the merge of the function index). After a host has been processed, the index stored for a function is the index
  that was stored before, followed by new occurrences: one for each goroutine of the host
  whose series mentions the function, and no two for the same goroutine. Each is the
  occurrence that the workers make for the goroutine and carries the name of the host.
\<close>

theorem processHost_func_index_merge:
  assumes "processHost seed db (Some files) host numWorkers = Inr (db', fs)"
  shows "\<exists>new. Occurrences (readFuncIndex db' (funcKey fn)) = Occurrences (readFuncIndex db (funcKey fn)) @ new
     \<and> distinct (map GoroutineID new)
     \<and> set new = occOf host (goroSeriesOf seed files) ` {goroID. mentions (goroSeriesOf seed files) fn goroID}"
proof -
  from assms obtain goroSeries ts cs where
    fp: "firstPass seed (sort_key timestamp (parsedFiles seed files)) ([], [], []) = (goroSeries, ts, cs)"
    and pos: "0 < numWorkers"
    and db': "db' = mergeFuncs seed (mapRange seed (secondPass seed host (nat numWorkers) goroSeries))
             (db @ seriesWrites host (mapRange seed goroSeries)
                 @ childrenWrites host (mapRange seed (buildChildren (mapRange seed goroSeries) []))
                 @ [(statsKey host, StatsValue ts cs)])"
    by (rule processHost_steps)
  have gs: "goroSeriesOf seed files = goroSeries"
    using fp by (simp add: goroSeriesOf_def parsedFiles_def)
  let ?m = "secondPass seed host (nat numWorkers) goroSeries"
  let ?F = "occOf host goroSeries"
  let ?db3 = "db @ seriesWrites host (mapRange seed goroSeries)
                 @ childrenWrites host (mapRange seed (buildChildren (mapRange seed goroSeries) []))
                 @ [(statsKey host, StatsValue ts cs)]"
  from pos have pos': "0 < nat numWorkers" by simp
  note good = secondPass_inv(1) [OF pos', where host = host and goroSeries = goroSeries and seed = seed]
  note keys = secondPass_inv(2) [OF pos', where host = host and goroSeries = goroSeries and seed = seed]
  from good have d: "distinct (map fst (mapRange seed ?m))" by (simp add: occGood_def)
  from good have mo: "map_of (mapRange seed ?m) = map_of ?m" by (simp add: occGood_def map_of_mapRange)
  have "funcKey fn \<notin> fst ` set (seriesWrites host (mapRange seed goroSeries)
                 @ childrenWrites host (mapRange seed (buildChildren (mapRange seed goroSeries) []))
                 @ [(statsKey host, StatsValue ts cs)])"
    by (auto simp: seriesWrites_def childrenWrites_def)
  then have old: "readFuncIndex ?db3 (funcKey fn) = readFuncIndex db (funcKey fn)"
    using readFuncIndex_append_other [of "funcKey fn" _ db] by simp
  have get: "readFuncIndex db' (funcKey fn) =
     (case map_of ?m fn of
        None \<Rightarrow> readFuncIndex db (funcKey fn)
      | Some gm \<Rightarrow> \<lparr>Occurrences = Occurrences (readFuncIndex db (funcKey fn)) @ map snd (mapRange seed gm)\<rparr>)"
    unfolding db' mergeFuncs_get [OF d] mo old ..
  show ?thesis
  proof (cases "map_of ?m fn")
    case None
    then have "\<And>goroID. (fn, goroID) \<notin> occKeys ?m" by (simp add: occKeys_def)
    then have "{goroID. mentions goroSeries fn goroID} = {}" unfolding keys by simp
    with get None show ?thesis unfolding gs by simp
  next
    case (Some gm)
    let ?new = "map snd (mapRange seed gm)"
    from occGood_values [OF good Some]
    have v: "map snd gm = map ?F (map fst gm)" and dg: "distinct (map fst gm)" .
    have "?new = mapRange seed (map snd gm)" by (rule map_mapRange)
    also have "\<dots> = mapRange seed (map ?F (map fst gm))" by (simp only: v)
    also have "\<dots> = map ?F (map fst (mapRange seed gm))" by (simp only: map_mapRange)
    finally have new: "?new = map ?F (map fst (mapRange seed gm))" .
    have "map GoroutineID (map ?F (map fst (mapRange seed gm))) = map fst (mapRange seed gm)"
      by (simp add: comp_def)
    then have "map GoroutineID ?new = map fst (mapRange seed gm)"
      by (simp only: new)
    moreover from dg have "distinct (map fst (mapRange seed gm))" by simp
    ultimately have 1: "distinct (map GoroutineID ?new)" by (simp only:)
    have "fst ` set gm = {goroID. (fn, goroID) \<in> occKeys ?m}"
      using Some by (simp add: occKeys_def)
    then have ids: "fst ` set gm = {goroID. mentions goroSeries fn goroID}" unfolding keys by simp
    have "set ?new = ?F ` fst ` set gm" unfolding new by (simp add: image_image)
    then have 2: "set ?new = ?F ` {goroID. mentions goroSeries fn goroID}" unfolding ids .
    from get Some have 0: "Occurrences (readFuncIndex db' (funcKey fn)) = Occurrences (readFuncIndex db (funcKey fn)) @ ?new"
      by simp
    from 0 1 2 show ?thesis unfolding gs by blast
  qed
qed

section \<open>A host processed after another\<close>

lemma hostRun:
  "processHost [2, 5] earlierStore (Some hostFiles) ''b'' 2 = Inr (hostStore, [''main.worker'', ''main.main''])"
  by code_simp

lemma hostStore_children:
  "(''c:b:1'', ChildrenValue [workerChild]) \<in> set hostStore"
  "(''c:b:1'', ChildrenValue [workerChild]) \<notin> set earlierStore"
  by (simp_all add: hostStore_def earlierStore_def)


theorem processHost_children_symmetry_witness:
  "\<exists>p. ''c:b:1'' = childrenKey ''b'' p \<and> dbGet hostStore ''c:b:1'' = Some (ChildrenValue [workerChild])
     \<and> distinct (map ID [workerChild])
     \<and> (\<forall>c\<in>set [workerChild]. \<exists>series. dbGet hostStore (seriesKey ''b'' (ID c)) = Some (SeriesValue series)
            \<and> (\<exists>e\<in>set (Entries series). CreatedBy e = p))"
  using processHost_children_symmetry [OF hostRun hostStore_children] .

theorem processHost_series_sorted_and_counted_witness:
  "length (filter (\<lambda>r. map_of (goros r) 22 \<noteq> None) (parsedFiles [2, 5] hostFiles)) = 2
   \<and> (\<exists>series. dbGet hostStore (seriesKey ''b'' 22) = Some (SeriesValue series)
         \<and> length (Entries series) = 2 \<and> sorted (map Timestamp (Entries series)))
   \<and> (\<exists>series. (''g:b:1'', SeriesValue series) \<in> set hostStore
         \<and> (''g:b:1'', SeriesValue series) \<notin> set earlierStore
         \<and> sorted (map Timestamp (Entries series)))"
proof -
  have len: "length (filter (\<lambda>r. map_of (goros r) 22 \<noteq> None) (parsedFiles [2, 5] hostFiles)) = 2"
    by code_simp
  then have ne: "filter (\<lambda>r. map_of (goros r) 22 \<noteq> None) (parsedFiles [2, 5] hostFiles) \<noteq> []"
    by (metis length_0_conv zero_neq_numeral)
  note th = processHost_series_sorted_and_counted [OF hostRun]
  from th [THEN conjunct2, THEN spec, THEN mp, OF ne]
  have 1: "\<exists>series. dbGet hostStore (seriesKey ''b'' 22) = Some (SeriesValue series)
         \<and> length (Entries series) = 2 \<and> sorted (map Timestamp (Entries series))"
    by (simp only: len)
  let ?s = "\<lparr>Entries = [\<lparr>Timestamp = 20, State = ''running'', Stack = ''main.main()'', CreatedBy = 0\<rparr>]\<rparr>"
  have m: "(''g:b:1'', SeriesValue ?s) \<in> set hostStore \<and> (''g:b:1'', SeriesValue ?s) \<notin> set earlierStore"
    by (simp add: hostStore_def earlierStore_def)
  from th [THEN conjunct1, THEN spec, THEN spec, THEN mp, OF m] m
  have 2: "\<exists>series. (''g:b:1'', SeriesValue series) \<in> set hostStore
         \<and> (''g:b:1'', SeriesValue series) \<notin> set earlierStore
         \<and> sorted (map Timestamp (Entries series))"
    by blast
  from len 1 2 show ?thesis by (intro conjI)
qed

theorem processHost_snapshot_counts_witness:
  "dbGet hostStore (statsKey ''b'') = Some (StatsValue [10, 20] [1, 2])
   \<and> length (filter (\<lambda>f. fileTime f \<noteq> None \<and> fileData f \<noteq> None) hostFiles) = 2
   \<and> (\<exists>ts cs. dbGet hostStore (statsKey ''b'') = Some (StatsValue ts cs)
       \<and> length ts = length cs
       \<and> length ts = length (filter (\<lambda>f. fileTime f \<noteq> None \<and> fileData f \<noteq> None) hostFiles)
       \<and> sorted ts
       \<and> mset (zip ts cs)
           = mset (map (\<lambda>r. (unixSeconds (timestamp r), int (card (dom (map_of (goros r))))))
                       (parsedFiles [2, 5] hostFiles)))"
proof -
  have 1: "dbGet hostStore (statsKey ''b'') = Some (StatsValue [10, 20] [1, 2])"
    by code_simp
  have 2: "length (filter (\<lambda>f. fileTime f \<noteq> None \<and> fileData f \<noteq> None) hostFiles) = 2"
    by (simp add: hostFiles_def)
  from 1 2 processHost_snapshot_counts [OF hostRun] show ?thesis by (intro conjI)
qed

theorem processHost_func_index_merge_witness:
  "Occurrences (readFuncIndex earlierStore (funcKey ''main.worker''))
     = [\<lparr>Host = ''a'', GoroutineID = 5, FirstSeen = 1, LastSeen = 2\<rparr>]
   \<and> Occurrences (readFuncIndex hostStore (funcKey ''main.worker''))
     = [\<lparr>Host = ''a'', GoroutineID = 5, FirstSeen = 1, LastSeen = 2\<rparr>,
        \<lparr>Host = ''b'', GoroutineID = 22, FirstSeen = 10, LastSeen = 20\<rparr>]
   \<and> (\<exists>new. Occurrences (readFuncIndex hostStore (funcKey ''main.worker''))
         = Occurrences (readFuncIndex earlierStore (funcKey ''main.worker'')) @ new
       \<and> distinct (map GoroutineID new)
       \<and> set new = occOf ''b'' (goroSeriesOf [2, 5] hostFiles)
                     ` {goroID. mentions (goroSeriesOf [2, 5] hostFiles) ''main.worker'' goroID})"
proof -
  have 1: "Occurrences (readFuncIndex earlierStore (funcKey ''main.worker''))
     = [\<lparr>Host = ''a'', GoroutineID = 5, FirstSeen = 1, LastSeen = 2\<rparr>]"
    by code_simp
  have 2: "Occurrences (readFuncIndex hostStore (funcKey ''main.worker''))
     = [\<lparr>Host = ''a'', GoroutineID = 5, FirstSeen = 1, LastSeen = 2\<rparr>,
        \<lparr>Host = ''b'', GoroutineID = 22, FirstSeen = 10, LastSeen = 20\<rparr>]"
    by code_simp
  from 1 2 processHost_func_index_merge [OF hostRun, of "''main.worker''"] show ?thesis by (intro conjI)
qed



end
